theory Spec2Isabelle
  imports Main "HOL-Library.Word"
begin

unbundle bit_operations_syntax

section \<open>The CSI receiver of \<^verbatim>\<open>src/main/reciv.c\<close>: data model\<close>

text \<open>
  The receiver keeps one byte ring, \<^verbatim>\<open>g_buffer\<close>, filled by the CSI callback
  \<^verbatim>\<open>wifi_csi_cb\<close> and emptied by the loop of \<^verbatim>\<open>usb_flush_task\<close>. All cursors and
  counters are \<^verbatim>\<open>uint32_t\<close>, the lengths of an event are \<^verbatim>\<open>uint16_t\<close>; they are
  modelled as words of that width, so every wrap-around of the C arithmetic is
  the wrap-around of the word operation.
\<close>

type_synonym u8 = "8 word"
type_synonym u16 = "16 word"
type_synonym u32 = "32 word"
type_synonym u64 = "64 word"

text \<open>
  Memory is addressed by byte offset. For \<^verbatim>\<open>g_buffer\<close> the offset is the array
  index; an offset of \<^verbatim>\<open>BUFFER_SIZE\<close> or more lies outside the array, and a
  store there is undefined behaviour in C. A copy routine is modelled by the
  list of byte stores it performs, in program order, so that every index it
  touches stays visible; the model applies such a store at its offset and
  never reads it back.
\<close>

type_synonym mem = "nat \<Rightarrow> u8"
type_synonym store = "nat \<times> u8"

text \<open>
  The compile-time constants: \<^verbatim>\<open>BUFFER_SIZE\<close> (line 18), the size of the staging
  array \<^verbatim>\<open>chunk\<close> (line 103) and the send threshold (the literal of line 118).
  The functions below take them as a parameter; \<open>reciv_config\<close> holds the
  values of the source.
\<close>

record config =
  BUFFER_SIZE :: u32
  CHUNK_SIZE :: u32
  SEND_THRESHOLD :: u32

definition reciv_config :: config where
  "reciv_config = \<lparr>BUFFER_SIZE = 1024 * 120, CHUNK_SIZE = 8192, SEND_THRESHOLD = 1024\<rparr>"

definition MAGIC_BYTE :: u16 where
  "MAGIC_BYTE = 0xFAFA"

text \<open>\<^verbatim>\<open>packet_header_t\<close> (lines 24-30); \<^verbatim>\<open>rssi\<close> is an \<^verbatim>\<open>int8_t\<close>, kept as its byte.\<close>

record packet_header_t =
  magic :: u16
  len :: u16
  rssi :: u8
  channel :: u8
  timestamp :: u32

text \<open>
  The object representation of the header. The struct is declared
  \<^verbatim>\<open>__attribute__((packed))\<close>, so the members follow each other without padding,
  and the target named in the file's head (ESP32-C6, a RISC-V core) stores the
  least significant byte of an integer first.
\<close>

definition le_bytes :: "nat \<Rightarrow> 'a::len word \<Rightarrow> u8 list" where
  "le_bytes n w = map (\<lambda>k. ucast (drop_bit (8 * k) w)) [0..<n]"

definition header_repr :: "packet_header_t \<Rightarrow> u8 list" where
  "header_repr h =
     le_bytes 2 (magic h) @ le_bytes 2 (len h) @ [rssi h] @ [channel h] @ le_bytes 4 (timestamp h)"

definition sizeof_packet_header_t :: u32 where
  "sizeof_packet_header_t = 10"

text \<open>A local object seen as source memory of a copy; only offsets inside it are read.\<close>

definition bytes_at :: "u8 list \<Rightarrow> mem" where
  "bytes_at bs = (\<lambda>i. if i < length bs then bs ! i else 0)"

text \<open>
  The fields of \<^verbatim>\<open>wifi_csi_info_t\<close> the callback reads: \<^verbatim>\<open>rx_ctrl.rssi\<close>,
  \<^verbatim>\<open>rx_ctrl.channel\<close>, the payload pointer \<^verbatim>\<open>buf\<close> (\<open>None\<close> is the null pointer,
  otherwise the memory it points to) and \<^verbatim>\<open>len\<close>. The descriptor itself is passed
  by pointer, so the callback receives a \<open>wifi_csi_info_t option\<close>.
\<close>

record wifi_csi_info_t =
  rx_ctrl_rssi :: u8
  rx_ctrl_channel :: u8
  buf :: "mem option"
  csi_len :: u16

text \<open>The globals of lines 32-35.\<close>

record rx_state =
  g_buffer :: mem
  g_write_head :: u32
  g_read_head :: u32
  g_packet_count :: u32

definition rx_init :: rx_state where
  "rx_init = \<lparr>g_buffer = (\<lambda>_. 0), g_write_head = 0, g_read_head = 0, g_packet_count = 0\<rparr>"

section \<open>Copy routines\<close>

text \<open>
  \<^verbatim>\<open>fast_copy_asm\<close> (lines 38-47): \<^verbatim>\<open>n >> 2\<close> word copies, then \<^verbatim>\<open>n & 3\<close> byte
  copies. A 32-bit load and store moves four bytes unchanged.
\<close>

fun word_loop :: "nat \<Rightarrow> nat \<Rightarrow> mem \<Rightarrow> nat \<Rightarrow> store list" where
  "word_loop 0 d src s = []"
| "word_loop (Suc count) d src s =
     [(d, src s), (d + 1, src (s + 1)), (d + 2, src (s + 2)), (d + 3, src (s + 3))]
       @ word_loop count (d + 4) src (s + 4)"

fun byte_loop :: "nat \<Rightarrow> nat \<Rightarrow> mem \<Rightarrow> nat \<Rightarrow> store list" where
  "byte_loop 0 d8 src s8 = []"
| "byte_loop (Suc remaining) d8 src s8 = (d8, src s8) # byte_loop remaining (d8 + 1) src (s8 + 1)"

definition fast_copy_asm :: "nat \<Rightarrow> mem \<Rightarrow> u32 \<Rightarrow> store list" where
  "fast_copy_asm dst src n =
     (let count = unat (drop_bit 2 n);
          remaining = unat (n AND 3)
      in word_loop count dst src 0 @ byte_loop remaining (dst + 4 * count) src (4 * count))"

definition memcpy :: "nat \<Rightarrow> mem \<Rightarrow> u32 \<Rightarrow> store list" where
  "memcpy dst src n = map (\<lambda>i. (dst + i, src i)) [0..<unat n]"

definition do_stores :: "store list \<Rightarrow> mem \<Rightarrow> mem" where
  "do_stores ss m = foldl (\<lambda>m' (i, b). m'(i := b)) m ss"

section \<open>The CSI callback\<close>

definition build_header :: "wifi_csi_info_t \<Rightarrow> u64 \<Rightarrow> packet_header_t" where
  "build_header info now =
     \<lparr>magic = MAGIC_BYTE, len = csi_len info, rssi = rx_ctrl_rssi info,
      channel = rx_ctrl_channel info, timestamp = ucast now\<rparr>"

text \<open>\<^verbatim>\<open>uint16_t total_len = sizeof(packet_header_t) + data_len\<close> (line 59).\<close>

definition total_len_of :: "u16 \<Rightarrow> u16" where
  "total_len_of data_len = ucast (sizeof_packet_header_t + ucast data_len :: u32)"

text \<open>\<^verbatim>\<open>next_head = (g_write_head + total_len) % BUFFER_SIZE\<close> (line 60).\<close>

definition next_head_of :: "config \<Rightarrow> rx_state \<Rightarrow> u16 \<Rightarrow> u32" where
  "next_head_of cfg st data_len =
     (g_write_head st + ucast (total_len_of data_len)) mod BUFFER_SIZE cfg"

text \<open>The two copy branches of lines 71-76, as the stores they perform.\<close>

definition copy_frame :: "config \<Rightarrow> u32 \<Rightarrow> packet_header_t \<Rightarrow> mem \<Rightarrow> u16 \<Rightarrow> store list" where
  "copy_frame cfg wh header b data_len =
     (if wh + ucast (total_len_of data_len) \<le> BUFFER_SIZE cfg
      then fast_copy_asm (unat wh) (bytes_at (header_repr header)) sizeof_packet_header_t
         @ fast_copy_asm (unat (wh + sizeof_packet_header_t)) b (ucast data_len)
      else memcpy (unat wh) (bytes_at (header_repr header)) sizeof_packet_header_t)"

text \<open>
  \<^verbatim>\<open>wifi_csi_cb\<close> (lines 50-78). \<open>now\<close> is the value \<^verbatim>\<open>esp_timer_get_time()\<close>
  returns during the call. The function returns nothing to its caller; its
  effect is the new value of the globals.
\<close>

definition wifi_csi_cb :: "config \<Rightarrow> rx_state \<Rightarrow> wifi_csi_info_t option \<Rightarrow> u64 \<Rightarrow> rx_state" where
  "wifi_csi_cb cfg st info now =
     (case info of
        None \<Rightarrow> st
      | Some i \<Rightarrow>
          (case buf i of
             None \<Rightarrow> st
           | Some b \<Rightarrow>
               if csi_len i = 0 then st
               else
                 let st1 = st\<lparr>g_packet_count := g_packet_count st + 1\<rparr>;
                     data_len = csi_len i;
                     next_head = next_head_of cfg st1 data_len
                 in if next_head = g_read_head st1 then st1
                    else st1\<lparr>g_buffer :=
                               do_stores (copy_frame cfg (g_write_head st1) (build_header i now) b data_len)
                                 (g_buffer st1),
                             g_write_head := next_head\<rparr>))"

text \<open>The byte stores one invocation performs into \<^verbatim>\<open>g_buffer\<close>, under the same guards.\<close>

definition wifi_csi_cb_stores :: "config \<Rightarrow> rx_state \<Rightarrow> wifi_csi_info_t option \<Rightarrow> u64 \<Rightarrow> store list" where
  "wifi_csi_cb_stores cfg st info now =
     (case info of
        None \<Rightarrow> []
      | Some i \<Rightarrow>
          (case buf i of
             None \<Rightarrow> []
           | Some b \<Rightarrow>
               if csi_len i = 0 then []
               else if next_head_of cfg st (csi_len i) = g_read_head st then []
               else copy_frame cfg (g_write_head st) (build_header i now) b (csi_len i)))"

text \<open>How an invocation ends: at the return of line 51, at the return of line 62, or at line 77.\<close>

definition malformed :: "wifi_csi_info_t option \<Rightarrow> bool" where
  "malformed info = (case info of None \<Rightarrow> True | Some i \<Rightarrow> buf i = None \<or> csi_len i = 0)"

definition rejected :: "config \<Rightarrow> rx_state \<Rightarrow> wifi_csi_info_t option \<Rightarrow> bool" where
  "rejected cfg st info =
     (case info of None \<Rightarrow> False
      | Some i \<Rightarrow> \<not> malformed info \<and> next_head_of cfg st (csi_len i) = g_read_head st)"

definition accepted :: "config \<Rightarrow> rx_state \<Rightarrow> wifi_csi_info_t option \<Rightarrow> bool" where
  "accepted cfg st info =
     (case info of None \<Rightarrow> False
      | Some i \<Rightarrow> \<not> malformed info \<and> next_head_of cfg st (csi_len i) \<noteq> g_read_head st)"

text \<open>The bytes of a frame as the wire format wants them: the header, then the payload.\<close>

definition frame_bytes :: "wifi_csi_info_t \<Rightarrow> u64 \<Rightarrow> u8 list" where
  "frame_bytes i now =
     header_repr (build_header i now)
       @ (case buf i of None \<Rightarrow> [] | Some b \<Rightarrow> map b [0..<unat (csi_len i)])"

section \<open>The drain loop\<close>

text \<open>
  \<^verbatim>\<open>usb_flush_task\<close> never returns; its body is a \<^verbatim>\<open>while (1)\<close> loop. One
  iteration of that loop (lines 114-127) is modelled, without the heartbeat of
  lines 108-112, which only prints \<^verbatim>\<open>g_packet_count\<close> and keeps a local time
  stamp. \<open>written\<close> is the \<^verbatim>\<open>int\<close> that \<^verbatim>\<open>usb_serial_jtag_write_bytes\<close>
  returns, read as a signed word. The iteration is taken as one step: the
  callback does not run inside it, so the two reads of \<^verbatim>\<open>g_write_head\<close> in
  lines 114-116 see the same value.
\<close>

definition available :: "config \<Rightarrow> rx_state \<Rightarrow> u32" where
  "available cfg st =
     (if g_write_head st \<ge> g_read_head st
      then g_write_head st - g_read_head st
      else BUFFER_SIZE cfg - g_read_head st + g_write_head st)"

definition send_len :: "config \<Rightarrow> rx_state \<Rightarrow> u32" where
  "send_len cfg st =
     (let send_len0 = (if available cfg st > CHUNK_SIZE cfg then CHUNK_SIZE cfg else available cfg st)
      in if g_read_head st + send_len0 > BUFFER_SIZE cfg
         then BUFFER_SIZE cfg - g_read_head st
         else send_len0)"

text \<open>\<^verbatim>\<open>memcpy(chunk, &g_buffer[g_read_head], send_len)\<close>: the staged bytes.\<close>

definition chunk :: "config \<Rightarrow> rx_state \<Rightarrow> u8 list" where
  "chunk cfg st = map (\<lambda>i. g_buffer st (unat (g_read_head st) + i)) [0..<unat (send_len cfg st)]"

definition usb_flush_task_iter :: "config \<Rightarrow> rx_state \<Rightarrow> u32 \<Rightarrow> rx_state" where
  "usb_flush_task_iter cfg st written =
     (if available cfg st > SEND_THRESHOLD cfg
      then (if 0 <s written
            then st\<lparr>g_read_head := (g_read_head st + written) mod BUFFER_SIZE cfg\<rparr>
            else st)
      else st)"

text \<open>
  What the transport takes in one iteration: the first \<open>written\<close> bytes of the
  staged chunk, when a chunk is offered and the transport reports progress.
\<close>

definition transported :: "config \<Rightarrow> rx_state \<Rightarrow> u32 \<Rightarrow> u8 list" where
  "transported cfg st written =
     (if available cfg st > SEND_THRESHOLD cfg \<and> 0 <s written
      then take (unat written) (chunk cfg st)
      else [])"

section \<open>Runs of the two parties\<close>

text \<open>
  An event is one invocation of the callback (with the descriptor and the clock
  value it sees) or one iteration of the drain loop (with the transport's
  answer). A step gives the new globals and the bytes the transport took.
\<close>

datatype event = Csi "wifi_csi_info_t option" u64 | Flush u32

fun step :: "config \<Rightarrow> rx_state \<Rightarrow> event \<Rightarrow> rx_state \<times> u8 list" where
  "step cfg st (Csi info now) = (wifi_csi_cb cfg st info now, [])"
| "step cfg st (Flush written) = (usb_flush_task_iter cfg st written, transported cfg st written)"

fun run :: "config \<Rightarrow> rx_state \<Rightarrow> event list \<Rightarrow> rx_state \<times> u8 list" where
  "run cfg st [] = (st, [])"
| "run cfg st (e # es) =
     (case step cfg st e of
        (st1, sent1) \<Rightarrow> (case run cfg st1 es of (st2, sent2) \<Rightarrow> (st2, sent1 @ sent2)))"

text \<open>
  How many invocations of a run ended as accepted, rejected and malformed, each
  judged in the state the invocation found.
\<close>

fun count_outcomes :: "config \<Rightarrow> rx_state \<Rightarrow> event list \<Rightarrow> nat \<times> nat \<times> nat" where
  "count_outcomes cfg st [] = (0, 0, 0)"
| "count_outcomes cfg st (Flush written # es) = count_outcomes cfg (usb_flush_task_iter cfg st written) es"
| "count_outcomes cfg st (Csi info now # es) =
     (case count_outcomes cfg (wifi_csi_cb cfg st info now) es of
        (a, r, m) \<Rightarrow>
          if accepted cfg st info then (Suc a, r, m)
          else if rejected cfg st info then (a, Suc r, m)
          else (a, r, Suc m))"

text \<open>The frames a run accepted, in the order of acceptance, as wire bytes.\<close>

fun accepted_bytes :: "config \<Rightarrow> rx_state \<Rightarrow> event list \<Rightarrow> u8 list" where
  "accepted_bytes cfg st [] = []"
| "accepted_bytes cfg st (Flush written # es) = accepted_bytes cfg (usb_flush_task_iter cfg st written) es"
| "accepted_bytes cfg st (Csi info now # es) =
     (if accepted cfg st info then frame_bytes (the info) now else [])
       @ accepted_bytes cfg (wifi_csi_cb cfg st info now) es"

text \<open>A decoder's reading of a little-endian field.\<close>

fun le_value :: "u8 list \<Rightarrow> nat" where
  "le_value [] = 0"
| "le_value (b # bs) = unat b + 256 * le_value bs"

text \<open>The state after \<open>n\<close> invocations for the same event, from start-up and with no draining.\<close>

definition appends :: "config \<Rightarrow> wifi_csi_info_t option \<Rightarrow> nat \<Rightarrow> rx_state" where
  "appends cfg info n = ((\<lambda>st. wifi_csi_cb cfg st info 0) ^^ n) rx_init"

text \<open>
  The room the spec's \<^verbatim>\<open>tryAppend\<close> compares with the frame size: the forward
  cyclic distance from the write cursor to the read cursor, which is the
  capacity less the occupied bytes.
\<close>

definition spec_room :: "config \<Rightarrow> rx_state \<Rightarrow> nat" where
  "spec_room cfg st = unat (BUFFER_SIZE cfg) - unat (available cfg st)"

text \<open>The assumptions on the constants and the cursors under which the C arithmetic does not wrap.\<close>

definition cfg_ok :: "config \<Rightarrow> bool" where
  "cfg_ok cfg = (0 < BUFFER_SIZE cfg \<and> unat (BUFFER_SIZE cfg) \<le> 2 ^ 31)"

definition heads_ok :: "config \<Rightarrow> rx_state \<Rightarrow> bool" where
  "heads_ok cfg st = (g_write_head st < BUFFER_SIZE cfg \<and> g_read_head st < BUFFER_SIZE cfg)"

section \<open>Properties of the copy routines\<close>

text \<open>\<^verbatim>\<open>fast_copy_asm\<close> performs the stores of a byte-wise copy of \<open>n\<close> bytes, in the same order.\<close>


lemma byte_loop_eq: "byte_loop r d src s = map (\<lambda>i. (d + i, src (s + i))) [0..<r]"
proof (induction r arbitrary: d s)
  case 0 show ?case by simp
next
  case (Suc r)
  have "[0..<Suc r] = 0 # map Suc [0..<r]"
    by (simp add: upt_conv_Cons map_Suc_upt del: upt_Suc)
  then show ?case using Suc by (simp add: comp_def del: upt_Suc)
qed

lemma byte_loop_4:
  "byte_loop (Suc (Suc (Suc (Suc k)))) d src s
     = [(d, src s), (d + 1, src (s + 1)), (d + 2, src (s + 2)), (d + 3, src (s + 3))]
         @ byte_loop k (d + 4) src (s + 4)"
  by (simp add: eval_nat_numeral)

lemma word_loop_byte_loop: "word_loop count d src s = byte_loop (4 * count) d src s"
proof (induction count arbitrary: d s)
  case 0 show ?case by simp
next
  case (Suc count)
  have "4 * Suc count = Suc (Suc (Suc (Suc (4 * count))))" by simp
  then have "byte_loop (4 * Suc count) d src s
      = [(d, src s), (d + 1, src (s + 1)), (d + 2, src (s + 2)), (d + 3, src (s + 3))]
          @ byte_loop (4 * count) (d + 4) src (s + 4)"
    by (simp only: byte_loop_4)
  then show ?case using Suc by (simp only: word_loop.simps)
qed

lemma byte_loop_append:
  "byte_loop a d src s @ byte_loop b (d + a) src (s + a) = byte_loop (a + b) d src s"
proof (induction a arbitrary: d s)
  case 0 show ?case by simp
next
  case (Suc a)
  show ?case using Suc [of "d + 1" "s + 1"] by simp
qed

lemma unat_drop_bit2: "unat (drop_bit 2 (n::u32)) = unat n div 4"
  by (simp add: unat_drop_bit_eq drop_bit_eq_div unat_div_distrib)

lemma unat_and3: "unat ((n::u32) AND 3) = unat n mod 4"
proof -
  have "n AND 3 = take_bit 2 n" by (simp add: take_bit_eq_mask mask_numeral)
  then show ?thesis by (simp add: unsigned_take_bit_eq take_bit_eq_mod unat_mod_distrib)
qed

lemma fast_copy_asm_memcpy: "fast_copy_asm dst src n = memcpy dst src n"
proof -
  have "fast_copy_asm dst src n
      = byte_loop (4 * (unat n div 4)) dst src 0
        @ byte_loop (unat n mod 4) (dst + 4 * (unat n div 4)) src (0 + 4 * (unat n div 4))"
    by (simp add: fast_copy_asm_def Let_def word_loop_byte_loop unat_drop_bit2 unat_and3)
  also have "\<dots> = byte_loop (4 * (unat n div 4) + unat n mod 4) dst src 0"
    by (rule byte_loop_append)
  also have "\<dots> = memcpy dst src n"
    by (simp add: byte_loop_eq memcpy_def)
  finally show ?thesis .
qed

lemma do_stores_append: "do_stores (xs @ ys) m = do_stores ys (do_stores xs m)"
  by (simp add: do_stores_def)

lemma do_stores_copy:
  "do_stores (map (\<lambda>i. (d + i, src i)) [0..<n]) m j
     = (if d \<le> j \<and> j < d + n then src (j - d) else m j)"
proof (induction n)
  case 0 show ?case by (auto simp: do_stores_def)
next
  case (Suc n)
  have "do_stores (map (\<lambda>i. (d + i, src i)) [0..<Suc n]) m
      = (do_stores (map (\<lambda>i. (d + i, src i)) [0..<n]) m)(d + n := src n)"
    by (simp add: do_stores_def)
  then show ?case using Suc by auto
qed

section \<open>The callback: cursors, counter and word arithmetic\<close>


lemma next_head_of_count [simp]:
  "next_head_of cfg (st\<lparr>g_packet_count := c\<rparr>) dl = next_head_of cfg st dl"
  by (simp add: next_head_of_def)

lemma cb_read_head: "g_read_head (wifi_csi_cb cfg st info now) = g_read_head st"
  by (simp add: wifi_csi_cb_def Let_def split: option.splits)

lemma cb_write_head:
  "g_write_head (wifi_csi_cb cfg st info now)
     = (if accepted cfg st info then next_head_of cfg st (csi_len (the info)) else g_write_head st)"
  by (simp add: wifi_csi_cb_def accepted_def malformed_def Let_def split: option.splits)

lemma cb_packet_count:
  "g_packet_count (wifi_csi_cb cfg st info now)
     = (if malformed info then g_packet_count st else g_packet_count st + 1)"
  by (simp add: wifi_csi_cb_def malformed_def Let_def split: option.splits)

lemma cb_buffer:
  "g_buffer (wifi_csi_cb cfg st info now) = do_stores (wifi_csi_cb_stores cfg st info now) (g_buffer st)"
  by (simp add: wifi_csi_cb_def wifi_csi_cb_stores_def Let_def do_stores_def split: option.splits)

lemma cb_malformed: "malformed info \<Longrightarrow> wifi_csi_cb cfg st info now = st"
  by (auto simp add: wifi_csi_cb_def malformed_def split: option.splits)

lemma cb_rejected:
  "rejected cfg st info \<Longrightarrow>
     wifi_csi_cb cfg st info now = st\<lparr>g_packet_count := g_packet_count st + 1\<rparr>"
  by (auto simp add: wifi_csi_cb_def rejected_def malformed_def Let_def split: option.splits)

lemma outcome_cases: "malformed info \<or> rejected cfg st info \<or> accepted cfg st info"
  by (auto simp: rejected_def accepted_def malformed_def split: option.splits)

lemma unat_u16_less: "unat (w::u16) < 65536"
proof -
  have "unat w < 2 ^ LENGTH(16)" by (rule unsigned_less)
  then show ?thesis by simp
qed

lemma unat_ucast_16_32: "unat (ucast (w::u16) :: u32) = unat w"
proof -
  have "unat w < 2 ^ LENGTH(16)" by (rule unsigned_less)
  then have "unat w < 2 ^ 32" by simp
  then show ?thesis by (simp add: unsigned_ucast_eq take_bit_nat_eq_self del: unsigned_less)
qed

lemma unat_hdr_plus: "unat (sizeof_packet_header_t + ucast (dl::u16) :: u32) = 10 + unat dl"
proof -
  have "unat (ucast dl :: u32) = unat dl" by (rule unat_ucast_16_32)
  moreover have "unat dl < 65536" by (rule unat_u16_less)
  ultimately show ?thesis
    by (simp add: sizeof_packet_header_t_def unat_word_ariths)
qed

lemma unat_total_len: "unat (total_len_of dl) = (10 + unat dl) mod 65536"
  by (simp add: total_len_of_def unsigned_ucast_eq take_bit_eq_mod unat_hdr_plus)

lemma unat_total_len_small: "unat dl \<le> 65525 \<Longrightarrow> unat (total_len_of dl) = 10 + unat dl"
  by (simp add: unat_total_len)

lemma unat_cap: "cfg_ok cfg \<Longrightarrow> 0 < unat (BUFFER_SIZE cfg) \<and> unat (BUFFER_SIZE cfg) \<le> 2147483648"
  by (simp add: cfg_ok_def word_less_nat_alt)

lemma unat_wh_plus:
  assumes "cfg_ok cfg" "g_write_head st < BUFFER_SIZE cfg"
  shows "unat (g_write_head st + ucast (t::u16)) = unat (g_write_head st) + unat t"
proof -
  have "unat (ucast t :: u32) = unat t" by (rule unat_ucast_16_32)
  moreover have "unat t < 65536" by (rule unat_u16_less)
  moreover have "unat (g_write_head st) < 2147483648"
    using assms unat_cap [of cfg] by (simp add: word_less_nat_alt)
  ultimately show ?thesis by (simp add: unat_word_ariths)
qed

lemma unat_next_head:
  assumes "cfg_ok cfg" "g_write_head st < BUFFER_SIZE cfg"
  shows "unat (next_head_of cfg st dl)
           = (unat (g_write_head st) + unat (total_len_of dl)) mod unat (BUFFER_SIZE cfg)"
  by (simp add: next_head_of_def unat_mod_distrib unat_wh_plus [OF assms])

lemma next_head_less: "cfg_ok cfg \<Longrightarrow> next_head_of cfg st dl < BUFFER_SIZE cfg"
  by (simp add: next_head_of_def cfg_ok_def word_mod_less_divisor)

lemma fits_iff:
  assumes "cfg_ok cfg" "g_write_head st < BUFFER_SIZE cfg"
  shows "g_write_head st + ucast (t::u16) \<le> BUFFER_SIZE cfg
           \<longleftrightarrow> unat (g_write_head st) + unat t \<le> unat (BUFFER_SIZE cfg)"
  by (simp add: word_le_nat_alt unat_wh_plus [OF assms])

lemma cb_heads_ok:
  "cfg_ok cfg \<Longrightarrow> heads_ok cfg st \<Longrightarrow> heads_ok cfg (wifi_csi_cb cfg st info now)"
  by (simp add: heads_ok_def cb_read_head cb_write_head next_head_less)

section \<open>The bytes of a header\<close>


lemma header_repr_length: "length (header_repr h) = 10"
  by (simp add: header_repr_def le_bytes_def)

lemma le_bytes_2: "le_bytes 2 w = [ucast w, ucast (drop_bit 8 w)]"
  by (simp add: le_bytes_def upt_conv_Cons)

lemma le_bytes_4:
  "le_bytes 4 w = [ucast w, ucast (drop_bit 8 w), ucast (drop_bit 16 w), ucast (drop_bit 24 w)]"
  by (simp add: le_bytes_def upt_conv_Cons)

lemma header_repr_list:
  "header_repr h =
     [ucast (magic h), ucast (drop_bit 8 (magic h)),
      ucast (len h), ucast (drop_bit 8 (len h)),
      rssi h, channel h,
      ucast (timestamp h), ucast (drop_bit 8 (timestamp h)),
      ucast (drop_bit 16 (timestamp h)), ucast (drop_bit 24 (timestamp h))]"
  by (simp add: header_repr_def le_bytes_2 le_bytes_4)

lemma unat_low_byte: "unat (ucast (w::'a::len word) :: u8) = unat w mod 256"
  by (simp add: unsigned_ucast_eq take_bit_eq_mod)

lemma unat_drop_bit_div: "unat (drop_bit n (w::'a::len word)) = unat w div 2 ^ n"
proof -
  have "unat (drop_bit n w) = drop_bit n (unat w)" by (simp only: unat_drop_bit_eq)
  then show ?thesis by (simp only: drop_bit_eq_div)
qed

lemma le_value_u16: "le_value [ucast (w::u16), ucast (drop_bit 8 w)] = unat w"
proof -
  have "unat w < 65536" by (rule unat_u16_less)
  then show ?thesis by (simp add: unat_low_byte unat_drop_bit_div)
qed

lemma unat_u32_less: "unat (w::u32) < 4294967296"
proof -
  have "unat w < 2 ^ LENGTH(32)" by (rule unsigned_less)
  then show ?thesis by simp
qed

lemma le4_decomp:
  fixes x :: nat
  shows "x mod 256 + (256 * (x div 256 mod 256)
           + (65536 * (x div 65536 mod 256) + 16777216 * (x div 16777216))) = x"
proof -
  define a where "a = x div 256"
  define b where "b = a div 256"
  define c where "c = b div 256"
  have e1: "x = x mod 256 + 256 * a" by (simp add: a_def)
  have e2: "a = a mod 256 + 256 * b" by (simp add: b_def)
  have e3: "b = b mod 256 + 256 * c" by (simp add: c_def)
  have d2: "x div 65536 = b" by (simp add: a_def b_def div_mult2_eq [symmetric])
  have d3: "x div 16777216 = c" by (simp add: a_def b_def c_def div_mult2_eq [symmetric])
  have "x mod 256 + (256 * (a mod 256) + (65536 * (b mod 256) + 16777216 * c)) = x"
    using e1 e2 e3 by linarith
  then show ?thesis by (simp only: d2 d3 a_def [symmetric])
qed

lemma le_value_u32:
  "le_value [ucast (w::u32), ucast (drop_bit 8 w), ucast (drop_bit 16 w), ucast (drop_bit 24 w)] = unat w"
proof -
  have "unat w < 4294967296" by (rule unat_u32_less)
  then have "unat w div 16777216 < 256" by simp
  then show ?thesis
    using le4_decomp [of "unat w"] by (simp add: unat_low_byte unat_drop_bit_div)
qed

section \<open>The stores of an accepted frame\<close>


lemma unat_sizeof_header: "unat sizeof_packet_header_t = 10"
  by (simp add: sizeof_packet_header_t_def)

lemma memcpy_header:
  "memcpy dst (bytes_at (header_repr h)) sizeof_packet_header_t
     = map (\<lambda>k. (dst + k, header_repr h ! k)) [0..<10]"
  by (simp add: memcpy_def unat_sizeof_header bytes_at_def header_repr_length)

lemma copy_frame_eq:
  "copy_frame cfg wh h b dl =
     (if wh + ucast (total_len_of dl) \<le> BUFFER_SIZE cfg
      then map (\<lambda>k. (unat wh + k, header_repr h ! k)) [0..<10]
         @ map (\<lambda>k. (unat (wh + sizeof_packet_header_t) + k, b k)) [0..<unat dl]
      else map (\<lambda>k. (unat wh + k, header_repr h ! k)) [0..<10])"
  by (simp add: copy_frame_def fast_copy_asm_memcpy memcpy_header)
     (simp add: memcpy_def unat_ucast_16_32)

lemma copy_frame_take10:
  "take 10 (copy_frame cfg wh h b dl) = map (\<lambda>k. (unat wh + k, header_repr h ! k)) [0..<10]"
  by (simp add: copy_frame_eq)

lemma map_nth_header:
  "map (\<lambda>k. (d + k, header_repr h ! k)) [0..<10] = zip [d..<d + 10] (header_repr h)"
proof (rule nth_equalityI)
  show "length (map (\<lambda>k. (d + k, header_repr h ! k)) [0..<10]) = length (zip [d..<d + 10] (header_repr h))"
    by (simp add: header_repr_length)
next
  fix i assume "i < length (map (\<lambda>k. (d + k, header_repr h ! k)) [0..<10])"
  then have "i < 10" by simp
  then show "map (\<lambda>k. (d + k, header_repr h ! k)) [0..<10] ! i = zip [d..<d + 10] (header_repr h) ! i"
    by (simp add: header_repr_length)
qed

lemma stores_accepted:
  "accepted cfg st (Some i) \<Longrightarrow>
     wifi_csi_cb_stores cfg st (Some i) now
       = copy_frame cfg (g_write_head st) (build_header i now) (the (buf i)) (csi_len i)"
  by (auto simp: accepted_def malformed_def wifi_csi_cb_stores_def split: option.splits)

section \<open>The drain iteration: word arithmetic\<close>


lemma unat_add_small:
  fixes x y :: u32
  assumes "unat x + unat y < 4294967296"
  shows "unat (x + y) = unat x + unat y"
  using assms unat_add_lem [of x y] by simp

lemma unat_heads:
  assumes "cfg_ok cfg" "heads_ok cfg st"
  shows "unat (g_write_head st) < unat (BUFFER_SIZE cfg)"
    and "unat (g_read_head st) < unat (BUFFER_SIZE cfg)"
    and "unat (BUFFER_SIZE cfg) \<le> 2147483648"
  using assms by (simp_all add: heads_ok_def cfg_ok_def word_less_nat_alt)

lemma unat_available:
  assumes "cfg_ok cfg" "heads_ok cfg st"
  shows "unat (available cfg st)
           = (if unat (g_read_head st) \<le> unat (g_write_head st)
              then unat (g_write_head st) - unat (g_read_head st)
              else unat (BUFFER_SIZE cfg) - unat (g_read_head st) + unat (g_write_head st))"
proof (cases "g_read_head st \<le> g_write_head st")
  case True
  then show ?thesis by (simp add: available_def unat_sub word_le_nat_alt)
next
  case False
  note h = unat_heads [OF assms]
  have le: "g_read_head st \<le> BUFFER_SIZE cfg" using h(2) by (simp add: word_le_nat_alt)
  have sub: "unat (BUFFER_SIZE cfg - g_read_head st) = unat (BUFFER_SIZE cfg) - unat (g_read_head st)"
    by (rule unat_sub [OF le])
  have "unat (BUFFER_SIZE cfg - g_read_head st + g_write_head st)
          = unat (BUFFER_SIZE cfg - g_read_head st) + unat (g_write_head st)"
    by (rule unat_add_small) (use h sub in simp)
  then show ?thesis using False sub by (simp add: available_def word_le_nat_alt)
qed

lemma unat_available_mod:
  assumes "cfg_ok cfg" "heads_ok cfg st"
  shows "unat (available cfg st)
           = (unat (g_write_head st) + unat (BUFFER_SIZE cfg) - unat (g_read_head st))
               mod unat (BUFFER_SIZE cfg)"
proof -
  note h = unat_heads [OF assms]
  show ?thesis
  proof (cases "unat (g_read_head st) \<le> unat (g_write_head st)")
    case True
    then have "unat (g_write_head st) + unat (BUFFER_SIZE cfg) - unat (g_read_head st)
        = (unat (g_write_head st) - unat (g_read_head st)) + unat (BUFFER_SIZE cfg)" by simp
    then have "(unat (g_write_head st) + unat (BUFFER_SIZE cfg) - unat (g_read_head st))
                 mod unat (BUFFER_SIZE cfg)
        = (unat (g_write_head st) - unat (g_read_head st)) mod unat (BUFFER_SIZE cfg)"
      by (simp only: mod_add_self2)
    also have "\<dots> = unat (g_write_head st) - unat (g_read_head st)"
      using h by simp
    finally show ?thesis using True by (simp add: unat_available [OF assms])
  next
    case False
    then show ?thesis using h by (simp add: unat_available [OF assms])
  qed
qed

lemma available_less:
  assumes "cfg_ok cfg" "heads_ok cfg st"
  shows "unat (available cfg st) < unat (BUFFER_SIZE cfg)"
  using unat_heads [OF assms] by (auto simp add: unat_available [OF assms])

lemma unat_send_len:
  assumes "cfg_ok cfg" "heads_ok cfg st"
  shows "unat (send_len cfg st)
           = min (min (unat (CHUNK_SIZE cfg)) (unat (available cfg st)))
                 (unat (BUFFER_SIZE cfg) - unat (g_read_head st))"
proof -
  note h = unat_heads [OF assms]
  note a = available_less [OF assms]
  define s0 where "s0 = (if available cfg st > CHUNK_SIZE cfg then CHUNK_SIZE cfg else available cfg st)"
  have s0: "unat s0 = min (unat (CHUNK_SIZE cfg)) (unat (available cfg st))"
    by (simp add: s0_def word_less_nat_alt min_def)
  have sum: "unat (g_read_head st + s0) = unat (g_read_head st) + unat s0"
    by (rule unat_add_small) (use h a s0 in simp)
  have le: "g_read_head st \<le> BUFFER_SIZE cfg" using h(2) by (simp add: word_le_nat_alt)
  have sub: "unat (BUFFER_SIZE cfg - g_read_head st) = unat (BUFFER_SIZE cfg) - unat (g_read_head st)"
    by (rule unat_sub [OF le])
  have "send_len cfg st
          = (if g_read_head st + s0 > BUFFER_SIZE cfg then BUFFER_SIZE cfg - g_read_head st else s0)"
    by (simp add: send_len_def s0_def Let_def)
  then show ?thesis using s0 sum sub by (auto simp: word_less_nat_alt min_def)
qed

lemma length_chunk: "length (chunk cfg st) = unat (send_len cfg st)"
  by (simp add: chunk_def)

lemma nth_chunk:
  "i < unat (send_len cfg st) \<Longrightarrow> chunk cfg st ! i = g_buffer st (unat (g_read_head st) + i)"
  by (simp add: chunk_def)

lemma flush_write_head: "g_write_head (usb_flush_task_iter cfg st written) = g_write_head st"
  by (simp add: usb_flush_task_iter_def)

lemma flush_buffer: "g_buffer (usb_flush_task_iter cfg st written) = g_buffer st"
  by (simp add: usb_flush_task_iter_def)

lemma flush_packet_count: "g_packet_count (usb_flush_task_iter cfg st written) = g_packet_count st"
  by (simp add: usb_flush_task_iter_def)

lemma flush_read_head:
  "g_read_head (usb_flush_task_iter cfg st written)
     = (if available cfg st > SEND_THRESHOLD cfg \<and> 0 <s written
        then (g_read_head st + written) mod BUFFER_SIZE cfg else g_read_head st)"
  by (simp add: usb_flush_task_iter_def)

lemma flush_heads_ok:
  "cfg_ok cfg \<Longrightarrow> heads_ok cfg st \<Longrightarrow> heads_ok cfg (usb_flush_task_iter cfg st written)"
  by (simp add: heads_ok_def flush_read_head flush_write_head cfg_ok_def word_mod_less_divisor)

lemma flush_no_progress: "\<not> 0 <s written \<Longrightarrow> usb_flush_task_iter cfg st written = st"
  by (simp add: usb_flush_task_iter_def)

text \<open>The transport's answer, read as a signed number, when it is a small byte count.\<close>


lemma uint_small:
  fixes w :: u32
  assumes "unat w < 2147483648"
  shows "0 \<le> uint w \<and> uint w < 2147483648 \<and> (0 < uint w \<longleftrightarrow> 0 < unat w)"
proof -
  have n: "unat w = nat (uint w)" by (rule unat_eq_nat_uint)
  have p: "0 \<le> uint w" by simp
  from assms n p show ?thesis by linarith
qed

lemma sint_small:
  fixes w :: u32
  assumes "unat w < 2147483648"
  shows "sint w = uint w"
proof -
  have p: "0 \<le> uint w" by simp
  have "- (2 ^ 31) \<le> (0::int)" by simp
  then have lo: "- (2 ^ 31) \<le> uint w" using p by (rule order_trans)
  have hi: "uint w < 2 ^ 31" using uint_small [OF assms] by simp
  have "signed_take_bit 31 (uint w) = uint w"
    by (rule signed_take_bit_int_eq_self [OF lo hi])
  then show ?thesis by (simp add: sint_uint)
qed

lemma sless_small:
  fixes w :: u32
  assumes "unat w < 2147483648"
  shows "0 <s w \<longleftrightarrow> 0 < unat w"
  using uint_small [OF assms] by (simp add: word_sless_alt sint_small [OF assms])

section \<open>Runs\<close>


lemma appends_Suc: "appends cfg info (Suc n) = wifi_csi_cb cfg (appends cfg info n) info 0"
  by (simp add: appends_def)

lemma appends_0: "appends cfg info 0 = rx_init"
  by (simp add: appends_def)

lemma appends_read_head: "g_read_head (appends cfg info n) = 0"
  by (induction n) (simp_all add: appends_0 appends_Suc cb_read_head rx_init_def)

lemma run_fst_Cons: "fst (run cfg st (e # es)) = fst (run cfg (fst (step cfg st e)) es)"
  by (cases "step cfg st e"; cases "run cfg (fst (step cfg st e)) es") simp

lemma run_snd_Cons:
  "snd (run cfg st (e # es)) = snd (step cfg st e) @ snd (run cfg (fst (step cfg st e)) es)"
  by (cases "step cfg st e"; cases "run cfg (fst (step cfg st e)) es") simp

lemma run_count:
  "count_outcomes cfg st evs = (a, r, m) \<Longrightarrow>
     g_packet_count (fst (run cfg st evs)) = g_packet_count st + of_nat (a + r)"
proof (induction evs arbitrary: st a r m)
  case Nil
  then show ?case by simp
next
  case (Cons e es)
  show ?case
  proof (cases e)
    case (Flush written)
    then show ?thesis
      using Cons.prems Cons.IH [of "usb_flush_task_iter cfg st written" a r m]
      by (simp add: flush_packet_count run_fst_Cons del: run.simps)
  next
    case (Csi info now)
    obtain a' r' m' where rest: "count_outcomes cfg (wifi_csi_cb cfg st info now) es = (a', r', m')"
      by (cases "count_outcomes cfg (wifi_csi_cb cfg st info now) es") auto
    have ih: "g_packet_count (fst (run cfg (wifi_csi_cb cfg st info now) es))
                = g_packet_count (wifi_csi_cb cfg st info now) + of_nat (a' + r')"
      by (rule Cons.IH [OF rest])
    have run_eq: "fst (run cfg st (e # es)) = fst (run cfg (wifi_csi_cb cfg st info now) es)"
      using Csi by (simp add: run_fst_Cons del: run.simps)
    consider (acc) "accepted cfg st info" | (rej) "\<not> accepted cfg st info" "rejected cfg st info"
      | (mal) "\<not> accepted cfg st info" "\<not> rejected cfg st info" by blast
    then show ?thesis
    proof cases
      case acc
      then have "\<not> malformed info" by (auto simp: accepted_def split: option.splits)
      moreover have "a = Suc a'" "r = r'" using Cons.prems Csi rest acc by simp_all
      ultimately show ?thesis using ih run_eq by (simp add: cb_packet_count)
    next
      case rej
      then have "\<not> malformed info" by (auto simp: rejected_def split: option.splits)
      moreover have "a = a'" "r = Suc r'" using Cons.prems Csi rest rej by simp_all
      ultimately show ?thesis using ih run_eq by (simp add: cb_packet_count)
    next
      case mal
      then have "malformed info" using outcome_cases [of info cfg st] by blast
      moreover have "a = a'" "r = r'" using Cons.prems Csi rest mal by simp_all
      ultimately show ?thesis using ih run_eq by (simp add: cb_packet_count)
    qed
  qed
qed

lemma run_append:
  "run cfg st (xs @ ys)
     = (fst (run cfg (fst (run cfg st xs)) ys),
        snd (run cfg st xs) @ snd (run cfg (fst (run cfg st xs)) ys))"
proof (induction xs arbitrary: st)
  case Nil
  show ?case by simp
next
  case (Cons e es)
  have "run cfg st ((e # es) @ ys)
      = (fst (run cfg (fst (step cfg st e)) (es @ ys)),
         snd (step cfg st e) @ snd (run cfg (fst (step cfg st e)) (es @ ys)))"
    using run_fst_Cons [of cfg st e "es @ ys"] run_snd_Cons [of cfg st e "es @ ys"]
    by (simp add: prod_eq_iff del: run.simps)
  then show ?case
    by (simp add: Cons.IH run_fst_Cons run_snd_Cons del: run.simps)
qed

text \<open>Both cursors stay inside the buffer along every run from start-up.\<close>

lemma step_heads_ok:
  "cfg_ok cfg \<Longrightarrow> heads_ok cfg st \<Longrightarrow> heads_ok cfg (fst (step cfg st e))"
  by (cases e) (simp_all add: cb_heads_ok flush_heads_ok)

lemma rx_init_heads_ok: "cfg_ok cfg \<Longrightarrow> heads_ok cfg rx_init"
  by (simp add: heads_ok_def cfg_ok_def rx_init_def)

lemma run_heads_ok:
  "cfg_ok cfg \<Longrightarrow> heads_ok cfg st \<Longrightarrow> heads_ok cfg (fst (run cfg st evs))"
proof (induction evs arbitrary: st)
  case Nil
  then show ?case by simp
next
  case (Cons e es)
  then show ?case by (simp add: run_fst_Cons step_heads_ok del: run.simps)
qed

lemma accepted_bytes_append:
  "accepted_bytes cfg st (xs @ ys)
     = accepted_bytes cfg st xs @ accepted_bytes cfg (fst (run cfg st xs)) ys"
proof (induction xs arbitrary: st)
  case Nil
  show ?case by simp
next
  case (Cons e es)
  show ?case by (cases e) (simp_all add: Cons.IH run_fst_Cons del: run.simps)
qed

lemma accepted_bytes_flushes: "accepted_bytes cfg st (replicate n (Flush w)) = []"
  by (induction n arbitrary: st) simp_all

lemma length_frame_bytes: "buf i = Some b \<Longrightarrow> length (frame_bytes i now) = 10 + unat (csi_len i)"
  by (simp add: frame_bytes_def header_repr_length)

lemma nth_frame_payload:
  "buf i = Some b \<Longrightarrow> k < unat (csi_len i) \<Longrightarrow> frame_bytes i now ! (10 + k) = b k"
  by (simp add: frame_bytes_def header_repr_length nth_append)

lemma do_stores_outside:
  "\<forall>p \<in> set ss. fst p \<noteq> j \<Longrightarrow> do_stores ss m j = m j"
proof (induction ss arbitrary: m)
  case Nil
  show ?case by (simp add: do_stores_def)
next
  case (Cons p ps)
  have "do_stores (p # ps) m = do_stores ps (m(fst p := snd p))"
    by (cases p) (simp add: do_stores_def)
  then show ?case using Cons by simp
qed

lemma copy_frame_indices:
  assumes "cfg_ok cfg" and "wh < BUFFER_SIZE cfg" and "p \<in> set (copy_frame cfg wh h b dl)"
  shows "unat wh \<le> fst p \<and> fst p < unat wh + 10 + unat dl"
proof -
  have "unat wh < 2147483648"
    using assms(1,2) unat_cap [of cfg] by (simp add: word_less_nat_alt)
  then have "unat (wh + sizeof_packet_header_t) = unat wh + 10"
    using unat_add_small [of wh sizeof_packet_header_t] by (simp add: unat_sizeof_header)
  then show ?thesis
    using assms(3) by (auto simp: copy_frame_eq split: if_splits)
qed

lemma cb_buffer_outside:
  assumes "cfg_ok cfg" and "heads_ok cfg st"
    and "j < unat (g_write_head st) \<or> unat (g_write_head st) + 10 + unat (csi_len i) \<le> j"
  shows "g_buffer (wifi_csi_cb cfg st (Some i) now) j = g_buffer st j"
proof (cases "accepted cfg st (Some i)")
  case True
  have wh: "g_write_head st < BUFFER_SIZE cfg" using assms(2) by (simp add: heads_ok_def)
  have "\<forall>p \<in> set (wifi_csi_cb_stores cfg st (Some i) now). fst p \<noteq> j"
    using assms(3) copy_frame_indices [OF assms(1) wh]
    by (fastforce simp: stores_accepted [OF True])
  then show ?thesis by (simp add: cb_buffer do_stores_outside)
next
  case False
  then have "wifi_csi_cb_stores cfg st (Some i) now = []"
    by (auto simp: accepted_def malformed_def wifi_csi_cb_stores_def split: option.splits)
  then show ?thesis by (simp add: cb_buffer do_stores_def)
qed

text \<open>A drain iteration that sends a full staging chunk.\<close>

lemma full_chunk_flush:
  assumes "cfg_ok cfg" and "heads_ok cfg st"
    and "unat (SEND_THRESHOLD cfg) < unat (CHUNK_SIZE cfg)"
    and "unat (CHUNK_SIZE cfg) \<le> unat (available cfg st)"
    and "unat (g_read_head st) + unat (CHUNK_SIZE cfg) \<le> unat (BUFFER_SIZE cfg)"
    and "0 < unat (CHUNK_SIZE cfg)" and "unat (CHUNK_SIZE cfg) < 2147483648"
  shows "transported cfg st (CHUNK_SIZE cfg) = chunk cfg st"
    and "length (chunk cfg st) = unat (CHUNK_SIZE cfg)"
    and "usb_flush_task_iter cfg st (CHUNK_SIZE cfg)
           = st\<lparr>g_read_head := (g_read_head st + CHUNK_SIZE cfg) mod BUFFER_SIZE cfg\<rparr>"
    and "unat ((g_read_head st + CHUNK_SIZE cfg) mod BUFFER_SIZE cfg)
           = (unat (g_read_head st) + unat (CHUNK_SIZE cfg)) mod unat (BUFFER_SIZE cfg)"
proof -
  note h = unat_heads [OF assms(1,2)]
  have sl: "unat (send_len cfg st) = unat (CHUNK_SIZE cfg)"
    using assms(4,5) by (simp add: unat_send_len [OF assms(1,2)])
  show len: "length (chunk cfg st) = unat (CHUNK_SIZE cfg)" by (simp add: length_chunk sl)
  have thr: "SEND_THRESHOLD cfg < available cfg st"
    using assms(3,4) by (simp add: word_less_nat_alt)
  note small = assms(7)
  have pos: "0 <s CHUNK_SIZE cfg" using assms(6) by (simp add: sless_small [OF small])
  show "transported cfg st (CHUNK_SIZE cfg) = chunk cfg st"
    using thr pos len by (simp add: transported_def)
  show "usb_flush_task_iter cfg st (CHUNK_SIZE cfg)
           = st\<lparr>g_read_head := (g_read_head st + CHUNK_SIZE cfg) mod BUFFER_SIZE cfg\<rparr>"
    using thr pos by (simp add: usb_flush_task_iter_def)
  have "unat (g_read_head st + CHUNK_SIZE cfg) = unat (g_read_head st) + unat (CHUNK_SIZE cfg)"
    by (rule unat_add_small) (use assms(5) h in simp)
  then show "unat ((g_read_head st + CHUNK_SIZE cfg) mod BUFFER_SIZE cfg)
           = (unat (g_read_head st) + unat (CHUNK_SIZE cfg)) mod unat (BUFFER_SIZE cfg)"
    by (simp add: unat_mod_distrib)
qed

text \<open>The buffer after an accepted frame that fits before the physical end: the frame's bytes.\<close>

lemma fit_buffer:
  assumes "cfg_ok cfg" and "heads_ok cfg st" and "accepted cfg st (Some i)"
    and "unat (csi_len i) \<le> 65525"
    and "unat (g_write_head st) + 10 + unat (csi_len i) \<le> unat (BUFFER_SIZE cfg)"
    and "k < 10 + unat (csi_len i)"
  shows "g_buffer (wifi_csi_cb cfg st (Some i) now) (unat (g_write_head st) + k)
           = frame_bytes i now ! k"
proof -
  obtain b where b: "buf i = Some b"
    using assms(3) by (auto simp: accepted_def malformed_def)
  have wh: "g_write_head st < BUFFER_SIZE cfg" using assms(2) by (simp add: heads_ok_def)
  have tl: "unat (total_len_of (csi_len i)) = 10 + unat (csi_len i)"
    by (rule unat_total_len_small [OF assms(4)])
  have fit: "g_write_head st + ucast (total_len_of (csi_len i)) \<le> BUFFER_SIZE cfg"
    using assms(5) by (simp add: fits_iff [OF assms(1) wh] tl)
  have "unat (g_write_head st) < 2147483648"
    using assms(1) wh unat_cap [of cfg] by (simp add: word_less_nat_alt)
  then have plus: "unat (g_write_head st + sizeof_packet_header_t) = unat (g_write_head st) + 10"
    using unat_add_small [of "g_write_head st" sizeof_packet_header_t]
    by (simp add: unat_sizeof_header)
  have stores: "wifi_csi_cb_stores cfg st (Some i) now
      = map (\<lambda>k. (unat (g_write_head st) + k, header_repr (build_header i now) ! k)) [0..<10]
        @ map (\<lambda>k. (unat (g_write_head st) + 10 + k, b k)) [0..<unat (csi_len i)]"
    using fit b by (simp add: stores_accepted [OF assms(3)] copy_frame_eq plus)
  show ?thesis
    using assms(6) b
    by (simp add: cb_buffer stores do_stores_append do_stores_copy frame_bytes_def
        header_repr_length nth_append)
qed

text \<open>The buffer after an accepted frame that does not fit before the physical end.\<close>

lemma wrap_buffer:
  assumes "cfg_ok cfg" and "heads_ok cfg st" and "accepted cfg st (Some i)"
    and "unat (csi_len i) \<le> 65525"
    and "unat (BUFFER_SIZE cfg) < unat (g_write_head st) + 10 + unat (csi_len i)"
  shows "g_buffer (wifi_csi_cb cfg st (Some i) now) j
           = (if unat (g_write_head st) \<le> j \<and> j < unat (g_write_head st) + 10
              then header_repr (build_header i now) ! (j - unat (g_write_head st))
              else g_buffer st j)"
proof -
  have wh: "g_write_head st < BUFFER_SIZE cfg" using assms(2) by (simp add: heads_ok_def)
  have tl: "unat (total_len_of (csi_len i)) = 10 + unat (csi_len i)"
    by (rule unat_total_len_small [OF assms(4)])
  have nofit: "\<not> g_write_head st + ucast (total_len_of (csi_len i)) \<le> BUFFER_SIZE cfg"
    using assms(5) by (simp add: fits_iff [OF assms(1) wh] tl)
  have stores: "wifi_csi_cb_stores cfg st (Some i) now
      = map (\<lambda>k. (unat (g_write_head st) + k, header_repr (build_header i now) ! k)) [0..<10]"
    using nofit by (simp add: stores_accepted [OF assms(3)] copy_frame_eq)
  show ?thesis by (simp only: cb_buffer stores do_stores_copy)
qed

section \<open>Malformed events\<close>

text \<open>
  Claim C8. An invocation with a null descriptor, a null payload pointer or a
  zero payload length returns at line 51: buffer, cursors and counter are the
  ones it found.
\<close>

theorem malformed_event_is_noop:
  assumes "info = None \<or> (\<exists>i. info = Some i \<and> (buf i = None \<or> csi_len i = 0))"
  shows "wifi_csi_cb cfg st info now = st"
  using assms by (auto simp: wifi_csi_cb_def split: option.splits)

theorem malformed_event_is_noop_witness:
  "wifi_csi_cb reciv_config rx_init None 7 = rx_init
   \<and> wifi_csi_cb reciv_config rx_init
        (Some \<lparr>rx_ctrl_rssi = 200, rx_ctrl_channel = 6, buf = None, csi_len = 128\<rparr>) 7 = rx_init
   \<and> wifi_csi_cb reciv_config rx_init
        (Some \<lparr>rx_ctrl_rssi = 200, rx_ctrl_channel = 6, buf = Some (\<lambda>_. 1), csi_len = 0\<rparr>) 7 = rx_init"
  using malformed_event_is_noop [of None reciv_config rx_init 7]
    malformed_event_is_noop [of "Some \<lparr>rx_ctrl_rssi = 200, rx_ctrl_channel = 6, buf = None, csi_len = 128\<rparr>" reciv_config rx_init 7]
    malformed_event_is_noop [of "Some \<lparr>rx_ctrl_rssi = 200, rx_ctrl_channel = 6, buf = Some (\<lambda>_. 1), csi_len = 0\<rparr>" reciv_config rx_init 7]
  by simp

section \<open>The header on the wire\<close>

text \<open>
  Claim C10. The header is ten bytes: magic (2), payload length (2), signal
  strength (1), channel (1), timestamp (4), in this order and without padding;
  a decoder that reads the multi-byte fields least significant byte first gets
  the values the callback stored. The callback fills the header with the magic
  0xFAFA, the event's length, rssi and channel and the low 32 bits of the clock,
  and the first ten stores of every accepted invocation put these bytes at the
  write cursor.
\<close>

theorem header_wire_layout:
  "length (header_repr h) = 10
   \<and> le_value (take 2 (header_repr h)) = unat (magic h)
   \<and> le_value (take 2 (drop 2 (header_repr h))) = unat (len h)
   \<and> header_repr h ! 4 = rssi h
   \<and> header_repr h ! 5 = channel h
   \<and> le_value (drop 6 (header_repr h)) = unat (timestamp h)
   \<and> build_header i now =
       \<lparr>magic = 0xFAFA, len = csi_len i, rssi = rx_ctrl_rssi i, channel = rx_ctrl_channel i,
        timestamp = ucast now\<rparr>
   \<and> (accepted cfg st (Some i) \<longrightarrow>
        take 10 (wifi_csi_cb_stores cfg st (Some i) now)
          = zip [unat (g_write_head st)..<unat (g_write_head st) + 10] (header_repr (build_header i now)))"
proof -
  have "le_value (take 2 (header_repr h)) = unat (magic h)"
    by (simp add: header_repr_list le_value_u16 del: le_value.simps)
  moreover have "le_value (take 2 (drop 2 (header_repr h))) = unat (len h)"
    by (simp add: header_repr_list le_value_u16 del: le_value.simps)
  moreover have "le_value (drop 6 (header_repr h)) = unat (timestamp h)"
    by (simp add: header_repr_list le_value_u32 del: le_value.simps)
  moreover have "header_repr h ! 4 = rssi h" "header_repr h ! 5 = channel h"
    by (simp_all add: header_repr_list)
  moreover have "build_header i now =
       \<lparr>magic = 0xFAFA, len = csi_len i, rssi = rx_ctrl_rssi i, channel = rx_ctrl_channel i,
        timestamp = ucast now\<rparr>"
    by (simp add: build_header_def MAGIC_BYTE_def)
  moreover have "accepted cfg st (Some i) \<longrightarrow>
        take 10 (wifi_csi_cb_stores cfg st (Some i) now)
          = zip [unat (g_write_head st)..<unat (g_write_head st) + 10] (header_repr (build_header i now))"
    by (simp add: stores_accepted copy_frame_take10 map_nth_header)
  ultimately show ?thesis by (simp add: header_repr_length)
qed

theorem header_wire_layout_witness:
  "header_repr (build_header \<lparr>rx_ctrl_rssi = 0xC4, rx_ctrl_channel = 6, buf = Some (\<lambda>_. 1), csi_len = 0x0180\<rparr> 0x1122334455)
     = [0xFA, 0xFA, 0x80, 0x01, 0xC4, 0x06, 0x55, 0x44, 0x33, 0x22]
   \<and> accepted reciv_config rx_init
        (Some \<lparr>rx_ctrl_rssi = 0xC4, rx_ctrl_channel = 6, buf = Some (\<lambda>_. 1), csi_len = 0x0180\<rparr>)
   \<and> take 10 (wifi_csi_cb_stores reciv_config rx_init
        (Some \<lparr>rx_ctrl_rssi = 0xC4, rx_ctrl_channel = 6, buf = Some (\<lambda>_. 1), csi_len = 0x0180\<rparr>) 0x1122334455)
       = [(0, 0xFA), (1, 0xFA), (2, 0x80), (3, 0x01), (4, 0xC4), (5, 0x06), (6, 0x55), (7, 0x44), (8, 0x33), (9, 0x22)]"
proof -
  let ?i = "\<lparr>rx_ctrl_rssi = 0xC4, rx_ctrl_channel = 6, buf = Some (\<lambda>_. 1), csi_len = 0x0180\<rparr> :: wifi_csi_info_t"
  have acc: "accepted reciv_config rx_init (Some ?i)"
    by (simp add: accepted_def malformed_def next_head_of_def total_len_of_def
        sizeof_packet_header_t_def reciv_config_def rx_init_def)
  have repr: "header_repr (build_header ?i 0x1122334455)
     = [0xFA, 0xFA, 0x80, 0x01, 0xC4, 0x06, 0x55, 0x44, 0x33, 0x22]"
    by (simp add: header_repr_list build_header_def MAGIC_BYTE_def)
  have "take 10 (wifi_csi_cb_stores reciv_config rx_init (Some ?i) 0x1122334455)
          = zip [unat (g_write_head rx_init)..<unat (g_write_head rx_init) + 10]
              (header_repr (build_header ?i 0x1122334455))"
    using header_wire_layout [of "build_header ?i 0x1122334455" ?i "0x1122334455" reciv_config rx_init] acc
    by blast
  then show ?thesis using acc repr by (simp add: rx_init_def upt_conv_Cons)
qed

section \<open>A frame that straddles the physical end\<close>




section \<open>What one drain iteration reads\<close>

text \<open>
  Claim C9. With both cursors inside the buffer, the available byte count is
  the forward cyclic distance from the read cursor to the write cursor; the
  staged chunk is the run of buffer bytes starting at the read cursor, its
  length the smallest of the staging size, the available count and the distance
  to the physical end of the buffer, so it never crosses that end; and
  staging writes no global: an iteration in which the transport takes nothing
  leaves the whole state, both cursors included, as it was.
\<close>

theorem drain_peek_contract:
  assumes "cfg_ok cfg" and "heads_ok cfg st"
  shows "unat (available cfg st)
           = (unat (g_write_head st) + unat (BUFFER_SIZE cfg) - unat (g_read_head st))
               mod unat (BUFFER_SIZE cfg)
       \<and> length (chunk cfg st)
           = min (min (unat (CHUNK_SIZE cfg)) (unat (available cfg st)))
                 (unat (BUFFER_SIZE cfg) - unat (g_read_head st))
       \<and> unat (g_read_head st) + length (chunk cfg st) \<le> unat (BUFFER_SIZE cfg)
       \<and> chunk cfg st
           = map (g_buffer st) [unat (g_read_head st)..<unat (g_read_head st) + length (chunk cfg st)]
       \<and> (\<not> 0 <s written \<longrightarrow> usb_flush_task_iter cfg st written = st)
       \<and> g_write_head (usb_flush_task_iter cfg st written) = g_write_head st"
proof -
  have len: "length (chunk cfg st)
           = min (min (unat (CHUNK_SIZE cfg)) (unat (available cfg st)))
                 (unat (BUFFER_SIZE cfg) - unat (g_read_head st))"
    by (simp add: length_chunk unat_send_len [OF assms])
  have "unat (g_read_head st) < unat (BUFFER_SIZE cfg)"
    by (rule unat_heads(2) [OF assms])
  then have fit: "unat (g_read_head st) + length (chunk cfg st) \<le> unat (BUFFER_SIZE cfg)"
    using len by simp
  have run: "chunk cfg st
           = map (g_buffer st) [unat (g_read_head st)..<unat (g_read_head st) + length (chunk cfg st)]"
    by (rule nth_equalityI) (simp_all add: length_chunk nth_chunk)
  show ?thesis
    using len fit run unat_available_mod [OF assms]
    by (simp add: flush_no_progress flush_write_head)
qed

theorem drain_peek_contract_witness:
  "cfg_ok reciv_config
   \<and> heads_ok reciv_config (rx_init\<lparr>g_write_head := 2000, g_read_head := 121880\<rparr>)
   \<and> unat (available reciv_config (rx_init\<lparr>g_write_head := 2000, g_read_head := 121880\<rparr>)) = 3000
   \<and> length (chunk reciv_config (rx_init\<lparr>g_write_head := 2000, g_read_head := 121880\<rparr>)) = 1000
   \<and> usb_flush_task_iter reciv_config (rx_init\<lparr>g_write_head := 2000, g_read_head := 121880\<rparr>) 0
       = rx_init\<lparr>g_write_head := 2000, g_read_head := 121880\<rparr>"
proof -
  let ?st = "rx_init\<lparr>g_write_head := 2000, g_read_head := 121880\<rparr>"
  have c: "cfg_ok reciv_config" by (simp add: cfg_ok_def reciv_config_def)
  have h: "heads_ok reciv_config ?st" by (simp add: heads_ok_def reciv_config_def rx_init_def)
  have a: "unat (available reciv_config ?st) = 3000"
    using drain_peek_contract [OF c h, of 0] by (simp add: reciv_config_def rx_init_def)
  then have "length (chunk reciv_config ?st) = 1000"
    using drain_peek_contract [OF c h, of 0] by (simp add: reciv_config_def rx_init_def)
  moreover have "usb_flush_task_iter reciv_config ?st 0 = ?st"
    using drain_peek_contract [OF c h, of 0] by simp
  ultimately show ?thesis using c h a by simp
qed

section \<open>Short writes\<close>

text \<open>
  Claim C7. In an iteration that offers a chunk, with both cursors inside the
  buffer, let the transport accept \<open>k\<close> bytes, \<open>k\<close> less than the offered
  length (\<open>k = 0\<close> is the timeout). Then the transport got the first \<open>k\<close>
  bytes of the chunk, the read cursor advanced by exactly \<open>k\<close> modulo the
  capacity, buffer and write cursor are unchanged, \<open>k\<close> bytes fewer are
  available, and the bytes not accepted are the first bytes the next iteration
  stages. With 250 bytes available, a staging size of 100 and 40 bytes
  accepted, 210 bytes are available afterwards.
\<close>

theorem short_write_keeps_rest:
  assumes "cfg_ok cfg" and "heads_ok cfg st"
    and "SEND_THRESHOLD cfg < available cfg st"
    and "written < send_len cfg st"
  shows "transported cfg st written = take (unat written) (chunk cfg st)
       \<and> unat (g_read_head (usb_flush_task_iter cfg st written))
           = (unat (g_read_head st) + unat written) mod unat (BUFFER_SIZE cfg)
       \<and> g_buffer (usb_flush_task_iter cfg st written) = g_buffer st
       \<and> g_write_head (usb_flush_task_iter cfg st written) = g_write_head st
       \<and> unat written \<le> unat (available cfg st)
       \<and> unat (available cfg (usb_flush_task_iter cfg st written))
           = unat (available cfg st) - unat written
       \<and> drop (unat written) (chunk cfg st)
           = take (unat (send_len cfg st) - unat written) (chunk cfg (usb_flush_task_iter cfg st written))"
proof -
  let ?st' = "usb_flush_task_iter cfg st written"
  define k where "k = unat written"
  define rh where "rh = unat (g_read_head st)"
  define wh where "wh = unat (g_write_head st)"
  define cap where "cap = unat (BUFFER_SIZE cfg)"
  note h = unat_heads [OF assms(1,2)]
  note sl = unat_send_len [OF assms(1,2)]
  note av = unat_available [OF assms(1,2)]
  have k_lt: "k < unat (send_len cfg st)"
    using assms(4) by (simp add: k_def word_less_nat_alt)
  have k_cap: "rh + k < cap" using k_lt sl h unfolding rh_def cap_def by arith
  have k_av: "k < unat (available cfg st)" using k_lt sl by simp
  have k_small: "unat written < 2147483648" using k_cap h by (simp add: k_def cap_def)
  have pos: "0 <s written \<longleftrightarrow> 0 < k" unfolding k_def by (rule sless_small [OF k_small])
  have sum: "unat (g_read_head st + written) = rh + k"
    unfolding rh_def k_def by (rule unat_add_small) (use k_cap h in \<open>simp add: rh_def k_def cap_def\<close>)
  have rh': "unat (g_read_head ?st') = rh + k"
  proof (cases "0 < k")
    case True
    then show ?thesis using assms(3) pos sum k_cap
      by (simp add: flush_read_head unat_mod_distrib cap_def)
  next
    case False
    then show ?thesis using pos by (simp add: flush_read_head rh_def)
  qed
  have ok': "heads_ok cfg ?st'" by (rule flush_heads_ok [OF assms(1,2)])
  have av': "unat (available cfg ?st') = unat (available cfg st) - k"
    using k_av k_cap h
    by (auto simp add: unat_available [OF assms(1) ok'] av rh' flush_write_head rh_def cap_def)
  have sl': "unat (send_len cfg ?st') 
               = min (min (unat (CHUNK_SIZE cfg)) (unat (available cfg st) - k)) (cap - (rh + k))"
    by (simp add: unat_send_len [OF assms(1) ok'] av' rh' cap_def)
  have ge: "unat (send_len cfg st) - k \<le> unat (send_len cfg ?st')"
  proof -
    have "min (min c a) (cap - rh) - k \<le> min (min c (a - k)) (cap - (rh + k))" for c a :: nat
      by arith
    then show ?thesis using sl sl' by (simp only: rh_def cap_def)
  qed
  have rest: "drop k (chunk cfg st) = take (unat (send_len cfg st) - k) (chunk cfg ?st')"
  proof (rule nth_equalityI)
    show "length (drop k (chunk cfg st)) = length (take (unat (send_len cfg st) - k) (chunk cfg ?st'))"
      using ge by (simp add: length_chunk)
  next
    fix i assume "i < length (drop k (chunk cfg st))"
    then have i: "i < unat (send_len cfg st) - k" by (simp add: length_chunk)
    then have "i < unat (send_len cfg ?st')" using ge by simp
    then show "drop k (chunk cfg st) ! i = take (unat (send_len cfg st) - k) (chunk cfg ?st') ! i"
      using i by (simp add: length_chunk nth_chunk rh' flush_buffer rh_def add.assoc)
  qed
  have tr: "transported cfg st written = take k (chunk cfg st)"
    using assms(3) pos by (cases "0 < k") (simp_all add: transported_def k_def)
  have "unat (g_read_head ?st') = (rh + k) mod cap" using rh' k_cap by simp
  then show ?thesis
    using tr av' rest k_av
    by (simp add: flush_buffer flush_write_head k_def rh_def cap_def)
qed

theorem short_write_keeps_rest_witness:
  "cfg_ok \<lparr>BUFFER_SIZE = 1024, CHUNK_SIZE = 100, SEND_THRESHOLD = 64\<rparr>
   \<and> heads_ok \<lparr>BUFFER_SIZE = 1024, CHUNK_SIZE = 100, SEND_THRESHOLD = 64\<rparr>
        (rx_init\<lparr>g_write_head := 250\<rparr>)
   \<and> unat (available \<lparr>BUFFER_SIZE = 1024, CHUNK_SIZE = 100, SEND_THRESHOLD = 64\<rparr>
        (rx_init\<lparr>g_write_head := 250\<rparr>)) = 250
   \<and> unat (send_len \<lparr>BUFFER_SIZE = 1024, CHUNK_SIZE = 100, SEND_THRESHOLD = 64\<rparr>
        (rx_init\<lparr>g_write_head := 250\<rparr>)) = 100
   \<and> unat (g_read_head (usb_flush_task_iter \<lparr>BUFFER_SIZE = 1024, CHUNK_SIZE = 100, SEND_THRESHOLD = 64\<rparr>
        (rx_init\<lparr>g_write_head := 250\<rparr>) 40)) = 40
   \<and> unat (available \<lparr>BUFFER_SIZE = 1024, CHUNK_SIZE = 100, SEND_THRESHOLD = 64\<rparr>
        (usb_flush_task_iter \<lparr>BUFFER_SIZE = 1024, CHUNK_SIZE = 100, SEND_THRESHOLD = 64\<rparr>
           (rx_init\<lparr>g_write_head := 250\<rparr>) 40)) = 210"
proof -
  let ?cfg = "\<lparr>BUFFER_SIZE = 1024, CHUNK_SIZE = 100, SEND_THRESHOLD = 64\<rparr>"
  let ?st = "rx_init\<lparr>g_write_head := 250\<rparr>"
  have c: "cfg_ok ?cfg" by (simp add: cfg_ok_def)
  have h: "heads_ok ?cfg ?st" by (simp add: heads_ok_def rx_init_def)
  have a: "available ?cfg ?st = 250" by (simp add: available_def rx_init_def)
  have s: "send_len ?cfg ?st = 100" by (simp add: send_len_def a) (simp add: rx_init_def)
  have t: "SEND_THRESHOLD ?cfg < available ?cfg ?st" by (simp add: a)
  have w: "(40::u32) < send_len ?cfg ?st" by (simp add: s)
  have "unat (g_read_head (usb_flush_task_iter ?cfg ?st 40))
          = (unat (g_read_head ?st) + unat (40::u32)) mod unat (BUFFER_SIZE ?cfg)
      \<and> unat (available ?cfg (usb_flush_task_iter ?cfg ?st 40)) = unat (available ?cfg ?st) - unat (40::u32)"
    using short_write_keeps_rest [OF c h t w] by blast
  then show ?thesis using c h by (simp add: a s) (simp add: rx_init_def)
qed

section \<open>The packet counter\<close>

text \<open>
  Claim C5, as amended. The callback keeps one counter, \<^verbatim>\<open>g_packet_count\<close>. A
  malformed event leaves it as it is; every well-formed event increments it by
  one (modulo \<open>2^32\<close>) before the fullness check, whether the frame is then
  stored or rejected. No counter of accepted frames exists. After any run the
  counter has grown by the number of accepted plus the number of rejected
  frames.
\<close>

theorem packet_count_counts_wellformed:
  "g_packet_count (wifi_csi_cb cfg st info now)
     = (if malformed info then g_packet_count st else g_packet_count st + 1)
   \<and> (\<not> malformed info \<longleftrightarrow> accepted cfg st info \<or> rejected cfg st info)
   \<and> (count_outcomes cfg st evs = (a, r, m) \<longrightarrow>
        g_packet_count (fst (run cfg st evs)) = g_packet_count st + of_nat (a + r))"
proof -
  have "\<not> malformed info \<longleftrightarrow> accepted cfg st info \<or> rejected cfg st info"
    by (auto simp: accepted_def rejected_def malformed_def split: option.splits)
  then show ?thesis using run_count [of cfg st evs a r m] by (simp add: cb_packet_count)
qed

theorem packet_count_counts_wellformed_witness:
  "count_outcomes reciv_config (rx_init\<lparr>g_write_head := 122860\<rparr>)
     [Csi None 1,
      Csi (Some \<lparr>rx_ctrl_rssi = 0xC4, rx_ctrl_channel = 6, buf = Some (\<lambda>_. 1), csi_len = 10\<rparr>) 2,
      Flush 0,
      Csi (Some \<lparr>rx_ctrl_rssi = 0xC4, rx_ctrl_channel = 6, buf = Some (\<lambda>_. 1), csi_len = 5\<rparr>) 3]
     = (1, 1, 1)
   \<and> g_packet_count (fst (run reciv_config (rx_init\<lparr>g_write_head := 122860\<rparr>)
     [Csi None 1,
      Csi (Some \<lparr>rx_ctrl_rssi = 0xC4, rx_ctrl_channel = 6, buf = Some (\<lambda>_. 1), csi_len = 10\<rparr>) 2,
      Flush 0,
      Csi (Some \<lparr>rx_ctrl_rssi = 0xC4, rx_ctrl_channel = 6, buf = Some (\<lambda>_. 1), csi_len = 5\<rparr>) 3])) = 2"
proof -
  let ?st = "rx_init\<lparr>g_write_head := 122860\<rparr>"
  let ?e10 = "Some \<lparr>rx_ctrl_rssi = 0xC4, rx_ctrl_channel = 6, buf = Some (\<lambda>_. 1), csi_len = 10\<rparr>"
  let ?e5 = "Some \<lparr>rx_ctrl_rssi = 0xC4, rx_ctrl_channel = 6, buf = Some (\<lambda>_. 1), csi_len = 5\<rparr>"
  let ?evs = "[Csi None 1, Csi ?e10 2, Flush 0, Csi ?e5 3]"
  have s1: "wifi_csi_cb reciv_config ?st None 1 = ?st" by (simp add: cb_malformed malformed_def)
  have r: "rejected reciv_config ?st ?e10"
    by (simp add: rejected_def malformed_def next_head_of_def total_len_of_def
        sizeof_packet_header_t_def reciv_config_def rx_init_def)
  have s2: "wifi_csi_cb reciv_config ?st ?e10 2 = ?st\<lparr>g_packet_count := 1\<rparr>"
    using cb_rejected [OF r, of 2] by (simp add: rx_init_def)
  have s3: "usb_flush_task_iter reciv_config (?st\<lparr>g_packet_count := 1\<rparr>) 0 = ?st\<lparr>g_packet_count := 1\<rparr>"
    by (simp add: flush_no_progress)
  have a: "accepted reciv_config (?st\<lparr>g_packet_count := 1\<rparr>) ?e5"
    by (simp add: accepted_def malformed_def next_head_of_def total_len_of_def
        sizeof_packet_header_t_def reciv_config_def rx_init_def)
  have na: "\<not> accepted reciv_config ?st ?e10"
    using r by (simp add: accepted_def rejected_def)
  have c: "count_outcomes reciv_config ?st ?evs = (1, 1, 1)"
    by (simp add: s1 s2 s3 a na r accepted_def [of _ _ None] rejected_def [of _ _ None])
  have "g_packet_count (fst (run reciv_config ?st ?evs)) = g_packet_count ?st + of_nat (1 + 1)"
    using packet_count_counts_wellformed [of reciv_config ?st None 0 ?evs 1 1 1] c by blast
  then show ?thesis using c by (simp add: rx_init_def)
qed

text \<open>
  The claim as stated has the observed-frames counter incremented on every
  invocation. An invocation with a null descriptor leaves \<^verbatim>\<open>g_packet_count\<close> at
  its value, and an accepted and a rejected frame raise it alike, so it is no
  counter of accepted frames either.
\<close>

theorem frames_observed_counterexample:
  "g_packet_count (wifi_csi_cb reciv_config rx_init None 7) \<noteq> g_packet_count rx_init + 1
   \<and> accepted reciv_config rx_init
        (Some \<lparr>rx_ctrl_rssi = 0xC4, rx_ctrl_channel = 6, buf = Some (\<lambda>_. 1), csi_len = 10\<rparr>)
   \<and> g_packet_count (wifi_csi_cb reciv_config rx_init
        (Some \<lparr>rx_ctrl_rssi = 0xC4, rx_ctrl_channel = 6, buf = Some (\<lambda>_. 1), csi_len = 10\<rparr>) 7) = 1
   \<and> rejected reciv_config (rx_init\<lparr>g_write_head := 122860\<rparr>)
        (Some \<lparr>rx_ctrl_rssi = 0xC4, rx_ctrl_channel = 6, buf = Some (\<lambda>_. 1), csi_len = 10\<rparr>)
   \<and> g_packet_count (wifi_csi_cb reciv_config (rx_init\<lparr>g_write_head := 122860\<rparr>)
        (Some \<lparr>rx_ctrl_rssi = 0xC4, rx_ctrl_channel = 6, buf = Some (\<lambda>_. 1), csi_len = 10\<rparr>) 7) = 1"
  by (simp add: cb_packet_count malformed_def accepted_def rejected_def next_head_of_def
      total_len_of_def sizeof_packet_header_t_def reciv_config_def rx_init_def)

section \<open>A rejected frame\<close>

text \<open>
  Claim C6, as amended. When the callback rejects a frame (the return of line
  62), the frame is dropped as a whole: the invocation performs no store into
  the buffer and moves neither cursor, and nothing is reported to the caller.
  No drop counter exists; the one change is the increment of
  \<^verbatim>\<open>g_packet_count\<close>, which every well-formed event causes.
\<close>

theorem rejected_frame_leaves_ring:
  assumes "rejected cfg st info"
  shows "wifi_csi_cb cfg st info now = st\<lparr>g_packet_count := g_packet_count st + 1\<rparr>
       \<and> wifi_csi_cb_stores cfg st info now = []
       \<and> g_buffer (wifi_csi_cb cfg st info now) = g_buffer st
       \<and> g_write_head (wifi_csi_cb cfg st info now) = g_write_head st
       \<and> g_read_head (wifi_csi_cb cfg st info now) = g_read_head st"
proof -
  have "wifi_csi_cb cfg st info now = st\<lparr>g_packet_count := g_packet_count st + 1\<rparr>"
    by (rule cb_rejected [OF assms])
  moreover have "wifi_csi_cb_stores cfg st info now = []"
    using assms by (auto simp: rejected_def malformed_def wifi_csi_cb_stores_def split: option.splits)
  ultimately show ?thesis by simp
qed

theorem rejected_frame_leaves_ring_witness:
  "rejected reciv_config (rx_init\<lparr>g_write_head := 122860\<rparr>)
     (Some \<lparr>rx_ctrl_rssi = 0xC4, rx_ctrl_channel = 6, buf = Some (\<lambda>_. 1), csi_len = 10\<rparr>)
   \<and> wifi_csi_cb reciv_config (rx_init\<lparr>g_write_head := 122860\<rparr>)
        (Some \<lparr>rx_ctrl_rssi = 0xC4, rx_ctrl_channel = 6, buf = Some (\<lambda>_. 1), csi_len = 10\<rparr>) 7
       = rx_init\<lparr>g_write_head := 122860, g_packet_count := 1\<rparr>"
proof -
  let ?st = "rx_init\<lparr>g_write_head := 122860\<rparr>"
  let ?ev = "Some \<lparr>rx_ctrl_rssi = 0xC4, rx_ctrl_channel = 6, buf = Some (\<lambda>_. 1), csi_len = 10\<rparr>"
  have r: "rejected reciv_config ?st ?ev"
    by (simp add: rejected_def malformed_def next_head_of_def total_len_of_def
        sizeof_packet_header_t_def reciv_config_def rx_init_def)
  show ?thesis
    using r rejected_frame_leaves_ring [OF r, of 7] by (simp add: rx_init_def)
qed

text \<open>
  The claim as stated asks for a drop counter. In the source a rejected
  invocation changes \<^verbatim>\<open>g_packet_count\<close> and nothing else, and an accepted
  invocation of the same event changes \<^verbatim>\<open>g_packet_count\<close> in the same way: no
  global counts the drops.
\<close>

theorem drop_counter_counterexample:
  "rejected reciv_config (rx_init\<lparr>g_write_head := 122860\<rparr>)
     (Some \<lparr>rx_ctrl_rssi = 0xC4, rx_ctrl_channel = 6, buf = Some (\<lambda>_. 1), csi_len = 10\<rparr>)
   \<and> wifi_csi_cb reciv_config (rx_init\<lparr>g_write_head := 122860\<rparr>)
        (Some \<lparr>rx_ctrl_rssi = 0xC4, rx_ctrl_channel = 6, buf = Some (\<lambda>_. 1), csi_len = 10\<rparr>) 7
       = rx_init\<lparr>g_write_head := 122860, g_packet_count := 1\<rparr>
   \<and> accepted reciv_config rx_init
        (Some \<lparr>rx_ctrl_rssi = 0xC4, rx_ctrl_channel = 6, buf = Some (\<lambda>_. 1), csi_len = 10\<rparr>)
   \<and> g_packet_count (wifi_csi_cb reciv_config rx_init
        (Some \<lparr>rx_ctrl_rssi = 0xC4, rx_ctrl_channel = 6, buf = Some (\<lambda>_. 1), csi_len = 10\<rparr>) 7) = 1"
proof -
  let ?st = "rx_init\<lparr>g_write_head := 122860\<rparr>"
  let ?ev = "Some \<lparr>rx_ctrl_rssi = 0xC4, rx_ctrl_channel = 6, buf = Some (\<lambda>_. 1), csi_len = 10\<rparr>"
  have r: "rejected reciv_config ?st ?ev"
    by (simp add: rejected_def malformed_def next_head_of_def total_len_of_def
        sizeof_packet_header_t_def reciv_config_def rx_init_def)
  have a: "accepted reciv_config rx_init ?ev"
    by (simp add: accepted_def malformed_def next_head_of_def total_len_of_def
        sizeof_packet_header_t_def reciv_config_def rx_init_def)
  have "wifi_csi_cb reciv_config ?st ?ev 7 = rx_init\<lparr>g_write_head := 122860, g_packet_count := 1\<rparr>"
    using cb_rejected [OF r, of 7] by (simp add: rx_init_def)
  moreover have "g_packet_count (wifi_csi_cb reciv_config rx_init ?ev 7) = 1"
    by (simp add: cb_packet_count malformed_def rx_init_def)
  ultimately show ?thesis using r a by simp
qed

section \<open>Overrun of unread data\<close>

lemma appends_1024:
  assumes "n \<le> 52"
  shows "unat (g_write_head (appends \<lparr>BUFFER_SIZE = 1024, CHUNK_SIZE = 100, SEND_THRESHOLD = 64\<rparr>
           (Some \<lparr>rx_ctrl_rssi = 0xC4, rx_ctrl_channel = 6, buf = Some (\<lambda>_. 1), csi_len = 10\<rparr>) n))
         = (20 * n) mod 1024
       \<and> (n < 52 \<longrightarrow> accepted \<lparr>BUFFER_SIZE = 1024, CHUNK_SIZE = 100, SEND_THRESHOLD = 64\<rparr>
            (appends \<lparr>BUFFER_SIZE = 1024, CHUNK_SIZE = 100, SEND_THRESHOLD = 64\<rparr>
               (Some \<lparr>rx_ctrl_rssi = 0xC4, rx_ctrl_channel = 6, buf = Some (\<lambda>_. 1), csi_len = 10\<rparr>) n)
            (Some \<lparr>rx_ctrl_rssi = 0xC4, rx_ctrl_channel = 6, buf = Some (\<lambda>_. 1), csi_len = 10\<rparr>))"
  using assms
proof (induction n)
  case 0
  show ?case
    by (simp add: appends_0 rx_init_def accepted_def malformed_def next_head_of_def total_len_of_def
        sizeof_packet_header_t_def)
next
  case (Suc n)
  let ?cfg = "\<lparr>BUFFER_SIZE = 1024, CHUNK_SIZE = 100, SEND_THRESHOLD = 64\<rparr>"
  let ?i = "\<lparr>rx_ctrl_rssi = 0xC4, rx_ctrl_channel = 6, buf = Some (\<lambda>_. 1), csi_len = 10\<rparr> :: wifi_csi_info_t"
  let ?st = "appends ?cfg (Some ?i) n"
  let ?st' = "appends ?cfg (Some ?i) (Suc n)"
  have n: "n < 52" using Suc.prems by simp
  have c: "cfg_ok ?cfg" by (simp add: cfg_ok_def)
  have w: "unat (g_write_head ?st) = (20 * n) mod 1024" and a: "accepted ?cfg ?st (Some ?i)"
    using Suc.IH n by simp_all
  have tl: "unat (total_len_of 10) = 20" by (simp add: unat_total_len)
  have nh: "unat (next_head_of ?cfg st (csi_len ?i)) = (unat (g_write_head st) + 20) mod 1024"
    if "g_write_head st < BUFFER_SIZE ?cfg" for st
    using unat_next_head [OF c that, of "csi_len ?i"] by (simp add: tl)
  have lt: "g_write_head st < BUFFER_SIZE ?cfg" if "unat (g_write_head st) = k mod 1024" for st k
    using that by (simp add: word_less_nat_alt)
  have "unat (g_write_head ?st') = (20 * n + 20) mod 1024"
    using a nh [OF lt [OF w]] w by (simp add: appends_Suc cb_write_head mod_simps)
  moreover have "20 * Suc n = 20 * n + 20" by simp
  ultimately have w': "unat (g_write_head ?st') = (20 * Suc n) mod 1024" by (simp only:)
  have "accepted ?cfg ?st' (Some ?i)" if "Suc n < 52"
  proof -
    have "(20 * Suc n + 20) mod 1024 \<noteq> 0"
    proof (cases "Suc n = 51")
      case True
      then show ?thesis by simp
    next
      case False
      then have "20 * Suc n + 20 < 1024" using that by simp
      then have "(20 * Suc n + 20) mod 1024 = 20 * Suc n + 20" by (rule mod_less)
      then show ?thesis by simp
    qed
    then have "unat (next_head_of ?cfg ?st' (csi_len ?i)) \<noteq> 0"
      using nh [OF lt [OF w']] w' by (simp add: mod_simps)
    then have "next_head_of ?cfg ?st' (csi_len ?i) \<noteq> 0" by auto
    then show ?thesis
      by (simp add: accepted_def malformed_def appends_read_head)
  qed
  then show ?case using w' by simp
qed

text \<open>
  Claim C1 asks that an append is accepted only when the room exceeds the frame
  size. The callback rejects only when the advanced write cursor would equal
  the read cursor (line 62). With the constants of the source and no draining,
  the second of two frames of 61441 bytes is accepted with 61439 bytes of room,
  and the write cursor ends two bytes past the read cursor, on top of the
  unread first frame. With a capacity of 1024 and frames of 20 bytes, appends 1
  to 52 are all accepted: the 52nd finds 4 bytes of room and moves the write
  cursor from 1020 to 16.
\<close>

theorem overrun_is_accepted:
  "spec_room reciv_config
     (appends reciv_config (Some \<lparr>rx_ctrl_rssi = 0xC4, rx_ctrl_channel = 6, buf = Some (\<lambda>_. 1), csi_len = 61431\<rparr>) 1)
     = 61439
   \<and> unat (total_len_of 61431) = 61441
   \<and> accepted reciv_config
        (appends reciv_config (Some \<lparr>rx_ctrl_rssi = 0xC4, rx_ctrl_channel = 6, buf = Some (\<lambda>_. 1), csi_len = 61431\<rparr>) 1)
        (Some \<lparr>rx_ctrl_rssi = 0xC4, rx_ctrl_channel = 6, buf = Some (\<lambda>_. 1), csi_len = 61431\<rparr>)
   \<and> g_write_head
        (appends reciv_config (Some \<lparr>rx_ctrl_rssi = 0xC4, rx_ctrl_channel = 6, buf = Some (\<lambda>_. 1), csi_len = 61431\<rparr>) 2)
       = 2
   \<and> g_read_head
        (appends reciv_config (Some \<lparr>rx_ctrl_rssi = 0xC4, rx_ctrl_channel = 6, buf = Some (\<lambda>_. 1), csi_len = 61431\<rparr>) 2)
       = 0
   \<and> list_all
        (\<lambda>n. accepted \<lparr>BUFFER_SIZE = 1024, CHUNK_SIZE = 100, SEND_THRESHOLD = 64\<rparr>
           (appends \<lparr>BUFFER_SIZE = 1024, CHUNK_SIZE = 100, SEND_THRESHOLD = 64\<rparr>
              (Some \<lparr>rx_ctrl_rssi = 0xC4, rx_ctrl_channel = 6, buf = Some (\<lambda>_. 1), csi_len = 10\<rparr>) n)
           (Some \<lparr>rx_ctrl_rssi = 0xC4, rx_ctrl_channel = 6, buf = Some (\<lambda>_. 1), csi_len = 10\<rparr>))
        [0..<52]
   \<and> unat (g_write_head
        (appends \<lparr>BUFFER_SIZE = 1024, CHUNK_SIZE = 100, SEND_THRESHOLD = 64\<rparr>
           (Some \<lparr>rx_ctrl_rssi = 0xC4, rx_ctrl_channel = 6, buf = Some (\<lambda>_. 1), csi_len = 10\<rparr>) 51)) = 1020
   \<and> spec_room \<lparr>BUFFER_SIZE = 1024, CHUNK_SIZE = 100, SEND_THRESHOLD = 64\<rparr>
        (appends \<lparr>BUFFER_SIZE = 1024, CHUNK_SIZE = 100, SEND_THRESHOLD = 64\<rparr>
           (Some \<lparr>rx_ctrl_rssi = 0xC4, rx_ctrl_channel = 6, buf = Some (\<lambda>_. 1), csi_len = 10\<rparr>) 51) = 4
   \<and> unat (g_write_head
        (appends \<lparr>BUFFER_SIZE = 1024, CHUNK_SIZE = 100, SEND_THRESHOLD = 64\<rparr>
           (Some \<lparr>rx_ctrl_rssi = 0xC4, rx_ctrl_channel = 6, buf = Some (\<lambda>_. 1), csi_len = 10\<rparr>) 52)) = 16"
proof -
  let ?big = "Some \<lparr>rx_ctrl_rssi = 0xC4, rx_ctrl_channel = 6, buf = Some (\<lambda>_. 1), csi_len = 61431\<rparr>"
  let ?cfg = "\<lparr>BUFFER_SIZE = 1024, CHUNK_SIZE = 100, SEND_THRESHOLD = 64\<rparr>"
  let ?ev = "Some \<lparr>rx_ctrl_rssi = 0xC4, rx_ctrl_channel = 6, buf = Some (\<lambda>_. 1), csi_len = 10\<rparr>"
  define st1 where "st1 = appends reciv_config ?big 1"
  define st2 where "st2 = appends reciv_config ?big 2"
  define s51 where "s51 = appends ?cfg ?ev 51"
  define s52 where "s52 = appends ?cfg ?ev 52"
  have tl: "total_len_of 61431 = 61441"
    by (simp add: total_len_of_def sizeof_packet_header_t_def)
  have a0: "accepted reciv_config rx_init ?big"
    by (simp add: accepted_def malformed_def next_head_of_def tl reciv_config_def rx_init_def)
  have one: "st1 = wifi_csi_cb reciv_config rx_init ?big 0"
    by (simp add: st1_def appends_def)
  have w1: "g_write_head st1 = 61441"
    unfolding one using a0
    by (simp add: cb_write_head) (simp add: next_head_of_def tl reciv_config_def rx_init_def)
  have r1: "g_read_head st1 = 0" unfolding st1_def by (rule appends_read_head)
  have room1: "spec_room reciv_config st1 = 61439"
    by (simp add: spec_room_def available_def w1 r1) (simp add: reciv_config_def)
  have a1: "accepted reciv_config st1 ?big"
    by (simp add: accepted_def malformed_def next_head_of_def tl w1 r1) (simp add: reciv_config_def)
  have two: "st2 = wifi_csi_cb reciv_config st1 ?big 0"
    unfolding st1_def st2_def using appends_Suc [of reciv_config ?big 1] by (simp add: numeral_2_eq_2)
  have w2: "g_write_head st2 = 2"
    unfolding two using a1
    by (simp add: cb_write_head) (simp add: next_head_of_def tl w1 reciv_config_def)
  have r2: "g_read_head st2 = 0" unfolding st2_def by (rule appends_read_head)
  have all: "list_all (\<lambda>n. accepted ?cfg (appends ?cfg ?ev n) ?ev) [0..<52]"
    unfolding list_all_iff using appends_1024 by auto
  have w51: "unat (g_write_head s51) = 1020"
    unfolding s51_def using appends_1024 [of 51] by simp
  have w52: "unat (g_write_head s52) = 16"
    unfolding s52_def using appends_1024 [of 52] by simp
  have "unat (g_write_head s51) = unat (1020::u32)" using w51 by simp
  then have "g_write_head s51 = 1020" by (simp only: word_unat_eq_iff)
  moreover have "g_read_head s51 = 0" unfolding s51_def by (rule appends_read_head)
  ultimately have room51: "spec_room ?cfg s51 = 4"
    by (simp add: spec_room_def available_def)
  have "unat (total_len_of 61431) = 61441" by (simp add: tl)
  then show ?thesis
    using room1 a1 w2 r2 all w51 room51 w52
    unfolding st1_def st2_def s51_def s52_def by blast
qed

section \<open>Stores past the end of the array\<close>

text \<open>
  Claim C3 asks that every store of the callback lands inside the array. In
  the branch of line 75 the ten header bytes are stored from the write cursor
  on, wherever it stands. With the constants of the source: five events of
  24565 payload bytes (frames of 24575 bytes), not drained, leave the write
  cursor at 122875; the sixth is accepted, does not fit, and its header is
  stored at the indices 122875 to 122884, five of them outside the array of
  122880 bytes.
\<close>

theorem header_stored_past_end:
  "unat (BUFFER_SIZE reciv_config) = 122880
   \<and> g_write_head (appends reciv_config
        (Some \<lparr>rx_ctrl_rssi = 0xC4, rx_ctrl_channel = 6, buf = Some (\<lambda>_. 1), csi_len = 24565\<rparr>) 5)
       = 122875
   \<and> accepted reciv_config
        (appends reciv_config
           (Some \<lparr>rx_ctrl_rssi = 0xC4, rx_ctrl_channel = 6, buf = Some (\<lambda>_. 1), csi_len = 24565\<rparr>) 5)
        (Some \<lparr>rx_ctrl_rssi = 0xC4, rx_ctrl_channel = 6, buf = Some (\<lambda>_. 1), csi_len = 24565\<rparr>)
   \<and> map fst (wifi_csi_cb_stores reciv_config
        (appends reciv_config
           (Some \<lparr>rx_ctrl_rssi = 0xC4, rx_ctrl_channel = 6, buf = Some (\<lambda>_. 1), csi_len = 24565\<rparr>) 5)
        (Some \<lparr>rx_ctrl_rssi = 0xC4, rx_ctrl_channel = 6, buf = Some (\<lambda>_. 1), csi_len = 24565\<rparr>) 0)
       = [122875, 122876, 122877, 122878, 122879, 122880, 122881, 122882, 122883, 122884]"
proof -
  let ?i = "\<lparr>rx_ctrl_rssi = 0xC4, rx_ctrl_channel = 6, buf = Some (\<lambda>_. 1), csi_len = 24565\<rparr> :: wifi_csi_info_t"
  define s where "s = (\<lambda>n. appends reciv_config (Some ?i) n)"
  have tl: "total_len_of 24565 = 24575"
    by (simp add: total_len_of_def sizeof_packet_header_t_def)
  have rh: "g_read_head (s n) = 0" for n unfolding s_def by (rule appends_read_head)
  have step: "g_write_head (s (Suc n)) = (g_write_head (s n) + 24575) mod 122880"
    if "(g_write_head (s n) + 24575) mod 122880 \<noteq> 0" for n
  proof -
    have "accepted reciv_config (s n) (Some ?i)"
      using that by (simp add: accepted_def malformed_def next_head_of_def tl rh reciv_config_def)
    then show ?thesis
      unfolding s_def appends_Suc
      by (simp add: cb_write_head) (simp add: next_head_of_def tl reciv_config_def)
  qed
  have w0: "g_write_head (s 0) = 0" by (simp add: s_def appends_0 rx_init_def)
  have w1: "g_write_head (s (Suc 0)) = 24575" using step [of 0] by (simp add: w0)
  have w2: "g_write_head (s (Suc (Suc 0))) = 49150" using step [of "Suc 0"] by (simp add: w1)
  have w3: "g_write_head (s (Suc (Suc (Suc 0)))) = 73725"
    using step [of "Suc (Suc 0)"] by (simp add: w2)
  have w4: "g_write_head (s (Suc (Suc (Suc (Suc 0))))) = 98300"
    using step [of "Suc (Suc (Suc 0))"] by (simp add: w3)
  have w5': "g_write_head (s (Suc (Suc (Suc (Suc (Suc 0)))))) = 122875"
    using step [of "Suc (Suc (Suc (Suc 0)))"] by (simp add: w4)
  have five: "(5::nat) = Suc (Suc (Suc (Suc (Suc 0))))" by simp
  have w5: "g_write_head (s 5) = 122875" using w5' by (simp only: five)
  have acc: "accepted reciv_config (s 5) (Some ?i)"
    by (simp add: accepted_def malformed_def next_head_of_def tl rh w5) (simp add: reciv_config_def)
  have nofit: "\<not> g_write_head (s 5) + ucast (total_len_of (csi_len ?i)) \<le> BUFFER_SIZE reciv_config"
    by (simp add: tl w5 reciv_config_def)
  have "wifi_csi_cb_stores reciv_config (s 5) (Some ?i) 0
      = map (\<lambda>k. (unat (g_write_head (s 5)) + k, header_repr (build_header ?i 0) ! k)) [0..<10]"
    using nofit by (simp only: stores_accepted [OF acc] copy_frame_eq if_False)
  then have "map fst (wifi_csi_cb_stores reciv_config (s 5) (Some ?i) 0)
      = [122875, 122876, 122877, 122878, 122879, 122880, 122881, 122882, 122883, 122884]"
    by (simp add: w5 comp_def upt_conv_Cons)
  moreover have "unat (BUFFER_SIZE reciv_config) = 122880" by (simp add: reciv_config_def)
  ultimately show ?thesis using w5 acc unfolding s_def by blast
qed

section \<open>The drained stream and the accepted frames\<close>

lemma full_flushes:
  assumes "g_write_head st = 675" and "unat (g_read_head st) = 8192 * k"
    and "1 \<le> k" and "k + n \<le> 15"
  shows "length (snd (run reciv_config st (replicate n (Flush 8192)))) = 8192 * n
       \<and> (\<forall>j < 8192 * n.
             snd (run reciv_config st (replicate n (Flush 8192))) ! j = g_buffer st (8192 * k + j))"
  using assms
proof (induction n arbitrary: st k)
  case 0
  show ?case by simp
next
  case (Suc n)
  let ?st' = "usb_flush_task_iter reciv_config st 8192"
  have c: "cfg_ok reciv_config" by (simp add: cfg_ok_def reciv_config_def)
  have k: "k \<le> 14" using Suc.prems(4) by simp
  have h: "heads_ok reciv_config st"
    using Suc.prems(1,2) k by (simp add: heads_ok_def word_less_nat_alt reciv_config_def)
  have av: "unat (available reciv_config st) = 123555 - 8192 * k"
    using Suc.prems(1,2,3) k by (simp add: unat_available [OF c h]) (simp add: reciv_config_def)
  have chunk_size: "CHUNK_SIZE reciv_config = 8192" by (simp add: reciv_config_def)
  have pre: "unat (SEND_THRESHOLD reciv_config) < unat (CHUNK_SIZE reciv_config)"
      "unat (CHUNK_SIZE reciv_config) \<le> unat (available reciv_config st)"
      "unat (g_read_head st) + unat (CHUNK_SIZE reciv_config) \<le> unat (BUFFER_SIZE reciv_config)"
      "0 < unat (CHUNK_SIZE reciv_config)" "unat (CHUNK_SIZE reciv_config) < 2147483648"
    using k Suc.prems(2) by (simp_all add: av) (simp_all add: reciv_config_def)
  note f = full_chunk_flush [OF c h pre, unfolded chunk_size]
  have sent: "transported reciv_config st 8192 = chunk reciv_config st" by (rule f(1))
  have len: "length (chunk reciv_config st) = 8192" using f(2) by simp
  have st': "?st' = st\<lparr>g_read_head := (g_read_head st + 8192) mod BUFFER_SIZE reciv_config\<rparr>"
    by (rule f(3))
  have rh': "unat (g_read_head ?st') = (8192 * k + 8192) mod 122880"
    using f(4) Suc.prems(2) by (simp add: st') (simp add: reciv_config_def)
  have wh': "g_write_head ?st' = 675" using Suc.prems(1) by (simp add: flush_write_head)
  have out: "snd (run reciv_config st (replicate (Suc n) (Flush 8192)))
      = chunk reciv_config st @ snd (run reciv_config ?st' (replicate n (Flush 8192)))"
    by (simp add: run_snd_Cons sent del: run.simps)
  show ?case
  proof (cases n)
    case 0
    then have e: "snd (run reciv_config ?st' (replicate n (Flush 8192))) = []" by simp
    show ?thesis
      unfolding out e using 0 len
      by (simp add: nth_chunk length_chunk [symmetric] Suc.prems(2))
  next
    case (Suc m)
    then have k13: "k \<le> 13" using Suc.prems(4) \<open>n = Suc m\<close> by simp
    then have "unat (g_read_head ?st') = 8192 * Suc k" using rh' by simp
    from Suc.IH [OF wh' this] Suc.prems(4)
    have ih: "length (snd (run reciv_config ?st' (replicate n (Flush 8192)))) = 8192 * n"
      "\<And>j. j < 8192 * n \<Longrightarrow>
         snd (run reciv_config ?st' (replicate n (Flush 8192))) ! j = g_buffer st (8192 * Suc k + j)"
      by (simp_all add: flush_buffer)
    have "snd (run reciv_config st (replicate (Suc n) (Flush 8192))) ! j = g_buffer st (8192 * k + j)"
      if "j < 8192 * Suc n" for j
    proof (cases "j < 8192")
      case True
      then show ?thesis
        unfolding out using len
        by (simp add: nth_append nth_chunk length_chunk [symmetric] Suc.prems(2))
    next
      case False
      then have "j - 8192 < 8192 * n" using that by simp
      then have "snd (run reciv_config ?st' (replicate n (Flush 8192))) ! (j - 8192)
                   = g_buffer st (8192 * Suc k + (j - 8192))" by (rule ih(2))
      moreover have "8192 * Suc k + (j - 8192) = 8192 * k + j" using False by simp
      ultimately show ?thesis unfolding out using False len by (simp add: nth_append)
    qed
    moreover have "length (snd (run reciv_config st (replicate (Suc n) (Flush 8192)))) = 8192 * Suc n"
      unfolding out using ih(1) len by simp
    ultimately show ?thesis by blast
  qed
qed

text \<open>
  Claim C4 asks that the drained bytes are the accepted frames' bytes, in order.
  With the constants of the source, from start-up: a frame of 65535 bytes and
  one of 57010 bytes are accepted and fit; one drain iteration sends 8192
  bytes; a third frame of 1010 bytes (payload bytes all 0x55) is accepted at
  write cursor 122545, does not fit, and only its header is stored; fourteen
  more drain iterations send the rest of the array. The accepted frames have
  123555 bytes, byte 122555 being the first payload byte of the third frame,
  0x55. The 122880 bytes sent carry the third header at 122545 (magic 0xFA,
  length bytes 0xE8 0x03) and then, at 122555, the stale 0 of the buffer.
\<close>

theorem wrapped_payload_not_drained:
  "length (accepted_bytes reciv_config rx_init
     ([Csi (Some \<lparr>rx_ctrl_rssi = 0xC4, rx_ctrl_channel = 6, buf = Some (\<lambda>_. 0x55), csi_len = 65525\<rparr>) 1,
       Csi (Some \<lparr>rx_ctrl_rssi = 0xC4, rx_ctrl_channel = 6, buf = Some (\<lambda>_. 0x55), csi_len = 57000\<rparr>) 2,
       Flush 8192,
       Csi (Some \<lparr>rx_ctrl_rssi = 0xC4, rx_ctrl_channel = 6, buf = Some (\<lambda>_. 0x55), csi_len = 1000\<rparr>) 3]
      @ replicate 14 (Flush 8192))) = 123555
   \<and> accepted_bytes reciv_config rx_init
     ([Csi (Some \<lparr>rx_ctrl_rssi = 0xC4, rx_ctrl_channel = 6, buf = Some (\<lambda>_. 0x55), csi_len = 65525\<rparr>) 1,
       Csi (Some \<lparr>rx_ctrl_rssi = 0xC4, rx_ctrl_channel = 6, buf = Some (\<lambda>_. 0x55), csi_len = 57000\<rparr>) 2,
       Flush 8192,
       Csi (Some \<lparr>rx_ctrl_rssi = 0xC4, rx_ctrl_channel = 6, buf = Some (\<lambda>_. 0x55), csi_len = 1000\<rparr>) 3]
      @ replicate 14 (Flush 8192)) ! 122555 = 0x55
   \<and> length (snd (run reciv_config rx_init
     ([Csi (Some \<lparr>rx_ctrl_rssi = 0xC4, rx_ctrl_channel = 6, buf = Some (\<lambda>_. 0x55), csi_len = 65525\<rparr>) 1,
       Csi (Some \<lparr>rx_ctrl_rssi = 0xC4, rx_ctrl_channel = 6, buf = Some (\<lambda>_. 0x55), csi_len = 57000\<rparr>) 2,
       Flush 8192,
       Csi (Some \<lparr>rx_ctrl_rssi = 0xC4, rx_ctrl_channel = 6, buf = Some (\<lambda>_. 0x55), csi_len = 1000\<rparr>) 3]
      @ replicate 14 (Flush 8192)))) = 122880
   \<and> snd (run reciv_config rx_init
     ([Csi (Some \<lparr>rx_ctrl_rssi = 0xC4, rx_ctrl_channel = 6, buf = Some (\<lambda>_. 0x55), csi_len = 65525\<rparr>) 1,
       Csi (Some \<lparr>rx_ctrl_rssi = 0xC4, rx_ctrl_channel = 6, buf = Some (\<lambda>_. 0x55), csi_len = 57000\<rparr>) 2,
       Flush 8192,
       Csi (Some \<lparr>rx_ctrl_rssi = 0xC4, rx_ctrl_channel = 6, buf = Some (\<lambda>_. 0x55), csi_len = 1000\<rparr>) 3]
      @ replicate 14 (Flush 8192))) ! 122545 = 0xFA
   \<and> snd (run reciv_config rx_init
     ([Csi (Some \<lparr>rx_ctrl_rssi = 0xC4, rx_ctrl_channel = 6, buf = Some (\<lambda>_. 0x55), csi_len = 65525\<rparr>) 1,
       Csi (Some \<lparr>rx_ctrl_rssi = 0xC4, rx_ctrl_channel = 6, buf = Some (\<lambda>_. 0x55), csi_len = 57000\<rparr>) 2,
       Flush 8192,
       Csi (Some \<lparr>rx_ctrl_rssi = 0xC4, rx_ctrl_channel = 6, buf = Some (\<lambda>_. 0x55), csi_len = 1000\<rparr>) 3]
      @ replicate 14 (Flush 8192))) ! 122555 = 0"
proof -
  let ?iA = "\<lparr>rx_ctrl_rssi = 0xC4, rx_ctrl_channel = 6, buf = Some (\<lambda>_. 0x55), csi_len = 65525\<rparr> :: wifi_csi_info_t"
  let ?iB = "\<lparr>rx_ctrl_rssi = 0xC4, rx_ctrl_channel = 6, buf = Some (\<lambda>_. 0x55), csi_len = 57000\<rparr> :: wifi_csi_info_t"
  let ?iC = "\<lparr>rx_ctrl_rssi = 0xC4, rx_ctrl_channel = 6, buf = Some (\<lambda>_. 0x55), csi_len = 1000\<rparr> :: wifi_csi_info_t"
  let ?pre = "[Csi (Some ?iA) 1, Csi (Some ?iB) 2, Flush 8192, Csi (Some ?iC) 3]"
  let ?fl = "replicate 14 (Flush 8192)"
  define sA where "sA = wifi_csi_cb reciv_config rx_init (Some ?iA) 1"
  define sB where "sB = wifi_csi_cb reciv_config sA (Some ?iB) 2"
  define sF where "sF = usb_flush_task_iter reciv_config sB 8192"
  define sC where "sC = wifi_csi_cb reciv_config sF (Some ?iC) 3"
  have c: "cfg_ok reciv_config" by (simp add: cfg_ok_def reciv_config_def)
  have h0: "heads_ok reciv_config rx_init" by (simp add: heads_ok_def reciv_config_def rx_init_def)
  have hA: "heads_ok reciv_config sA" unfolding sA_def by (rule cb_heads_ok [OF c h0])
  have hB: "heads_ok reciv_config sB" unfolding sB_def by (rule cb_heads_ok [OF c hA])
  have hF: "heads_ok reciv_config sF" unfolding sF_def by (rule flush_heads_ok [OF c hB])
  have tlA: "total_len_of 65525 = 65535" by (simp add: total_len_of_def sizeof_packet_header_t_def)
  have tlB: "total_len_of 57000 = 57010" by (simp add: total_len_of_def sizeof_packet_header_t_def)
  have tlC: "total_len_of 1000 = 1010" by (simp add: total_len_of_def sizeof_packet_header_t_def)
  \<comment> \<open>the cursors along the run\<close>
  have aA: "accepted reciv_config rx_init (Some ?iA)"
    by (simp add: accepted_def malformed_def next_head_of_def tlA reciv_config_def rx_init_def)
  have wA: "g_write_head sA = 65535"
    unfolding sA_def using aA
    by (simp add: cb_write_head) (simp add: next_head_of_def tlA reciv_config_def rx_init_def)
  have rA: "g_read_head sA = 0" by (simp add: sA_def cb_read_head rx_init_def)
  have aB: "accepted reciv_config sA (Some ?iB)"
    by (simp add: accepted_def malformed_def next_head_of_def tlB wA rA) (simp add: reciv_config_def)
  have wB: "g_write_head sB = 122545"
    unfolding sB_def using aB
    by (simp add: cb_write_head) (simp add: next_head_of_def tlB wA reciv_config_def)
  have rB: "g_read_head sB = 0" by (simp add: sB_def cb_read_head rA)
  have avB: "available reciv_config sB = 122545" by (simp add: available_def wB rB)
  have slB: "send_len reciv_config sB = 8192"
    by (simp add: send_len_def avB rB) (simp add: reciv_config_def)
  have pos: "(0::u32) <s 8192" by (simp add: word_sless_alt)
  have lenB: "length (chunk reciv_config sB) = 8192" by (simp add: length_chunk slB)
  have trB: "transported reciv_config sB 8192 = chunk reciv_config sB"
    using lenB pos by (simp add: transported_def avB) (simp add: reciv_config_def)
  have rF: "g_read_head sF = 8192"
    unfolding sF_def using pos by (simp add: flush_read_head avB rB) (simp add: reciv_config_def)
  have wF: "g_write_head sF = 122545" by (simp add: sF_def flush_write_head wB)
  have aC: "accepted reciv_config sF (Some ?iC)"
    by (simp add: accepted_def malformed_def next_head_of_def tlC wF rF) (simp add: reciv_config_def)
  have wC: "g_write_head sC = 675"
    unfolding sC_def using aC
    by (simp add: cb_write_head) (simp add: next_head_of_def tlC wF reciv_config_def)
  have rC: "unat (g_read_head sC) = 8192 * 1" by (simp add: sC_def cb_read_head rF)
  \<comment> \<open>the buffer the drain loop reads after the third frame\<close>
  have bA: "g_buffer sA j = 0" if "65535 \<le> j" for j
  proof -
    have "g_buffer sA j = g_buffer rx_init j"
      unfolding sA_def by (rule cb_buffer_outside [OF c h0]) (use that in \<open>simp add: rx_init_def\<close>)
    then show ?thesis by (simp add: rx_init_def)
  qed
  have bB: "g_buffer sB j = 0" if "122545 \<le> j" for j
  proof -
    have "g_buffer sB j = g_buffer sA j"
      unfolding sB_def by (rule cb_buffer_outside [OF c hA]) (use that in \<open>simp add: wA\<close>)
    then show ?thesis using that by (simp add: bA)
  qed
  have bF: "g_buffer sF j = 0" if "122545 \<le> j" for j
    using that bB by (simp add: sF_def flush_buffer)
  have bC: "g_buffer sC j
              = (if 122545 \<le> j \<and> j < 122555
                 then header_repr (build_header ?iC 3) ! (j - 122545) else g_buffer sF j)" for j
    unfolding sC_def using wrap_buffer [OF c hF aC, of 3 j] by (simp add: wF reciv_config_def)
  have magic: "g_buffer sC 122545 = 0xFA"
    by (simp add: bC header_repr_list build_header_def MAGIC_BYTE_def)
  have stale: "g_buffer sC 122555 = 0" by (simp add: bC bF)
  \<comment> \<open>the run\<close>
  have pre_state: "fst (run reciv_config rx_init ?pre) = sC"
    by (simp add: sA_def sB_def sF_def sC_def)
  have pre_sent: "snd (run reciv_config rx_init ?pre) = chunk reciv_config sB"
    using trB by (simp add: sA_def sB_def sF_def sC_def)
  have one: "(1::nat) \<le> 1" and fit: "(1::nat) + 14 \<le> 15" by simp_all
  note fl = full_flushes [OF wC rC one fit]
  have sent: "snd (run reciv_config rx_init (?pre @ ?fl))
                = chunk reciv_config sB @ snd (run reciv_config sC ?fl)"
    by (simp only: run_append pre_state pre_sent snd_conv)
  have sent_len: "length (snd (run reciv_config rx_init (?pre @ ?fl))) = 122880"
    unfolding sent using fl lenB by simp
  have nth_late: "snd (run reciv_config rx_init (?pre @ ?fl)) ! j = g_buffer sC j"
    if "8192 \<le> j" "j < 122880" for j
  proof -
    have "j - 8192 < 8192 * 14" using that by simp
    then have "snd (run reciv_config sC ?fl) ! (j - 8192) = g_buffer sC (8192 * 1 + (j - 8192))"
      using fl by blast
    then show ?thesis unfolding sent using that lenB by (simp add: nth_append)
  qed
  \<comment> \<open>the accepted frames\<close>
  have acc_pre: "accepted_bytes reciv_config rx_init ?pre
                   = frame_bytes ?iA 1 @ frame_bytes ?iB 2 @ frame_bytes ?iC 3"
    using aA aB aC by (simp add: sA_def sB_def sF_def)
  have acc: "accepted_bytes reciv_config rx_init (?pre @ ?fl)
               = frame_bytes ?iA 1 @ frame_bytes ?iB 2 @ frame_bytes ?iC 3"
    by (simp only: accepted_bytes_append acc_pre accepted_bytes_flushes append_Nil2)
  have lA: "length (frame_bytes ?iA 1) = 65535" by (simp add: length_frame_bytes)
  have lB: "length (frame_bytes ?iB 2) = 57010" by (simp add: length_frame_bytes)
  have lC: "length (frame_bytes ?iC 3) = 1010" by (simp add: length_frame_bytes)
  have pay: "frame_bytes ?iC 3 ! (10 + 0) = 0x55"
    by (rule nth_frame_payload [where b = "\<lambda>_. 0x55"]) simp_all
  have acc_len: "length (accepted_bytes reciv_config rx_init (?pre @ ?fl)) = 123555"
    unfolding acc by (simp add: lA lB lC)
  have acc_nth: "accepted_bytes reciv_config rx_init (?pre @ ?fl) ! 122555 = 0x55"
    unfolding acc using pay by (simp add: nth_append lA lB lC)
  have "snd (run reciv_config rx_init (?pre @ ?fl)) ! 122545 = g_buffer sC 122545"
    by (rule nth_late) simp_all
  then have hdr: "snd (run reciv_config rx_init (?pre @ ?fl)) ! 122545 = 0xFA"
    by (simp only: magic)
  have "snd (run reciv_config rx_init (?pre @ ?fl)) ! 122555 = g_buffer sC 122555"
    by (rule nth_late) simp_all
  then have gap: "snd (run reciv_config rx_init (?pre @ ?fl)) ! 122555 = 0"
    by (simp only: stale)
  from acc_len acc_nth sent_len hdr gap show ?thesis by (intro conjI)
qed

end
